theory Spec2Isabelle
  imports Complex_Main "HOL-Library.Word" "HOL-Library.Char_ord" "HOL-Library.List_Lexorder"
    "HOL-Library.Multiset" "HOL-Library.Sublist"
begin

section \<open>The node store\<close>

text \<open>
  \<^verbatim>\<open>struct TrieNode\<close> of \<^verbatim>\<open>include/trie/trie.hpp\<close>. A node exclusively owns its
  children (\<^verbatim>\<open>std::unique_ptr\<close>), so the heap of nodes is a tree and is modelled as a
  recursive value. The field \<^verbatim>\<open>children\<close> is a \<^verbatim>\<open>std::unordered_map<char, ...>\<close>. Its
  observable state is a sequence of key/child pairs with pairwise different keys: the
  sequence is the order in which a range-for visits the entries. It is modelled as an
  association list in that order. \<^verbatim>\<open>frequency\<close> is a \<^verbatim>\<open>std::uint32_t\<close>, so \<open>+ 1\<close> wraps
  at \<open>2 ^ 32\<close>. A \<^verbatim>\<open>char\<close> is one byte.
\<close>

datatype TrieNode =
  TrieNode (children: "(char \<times> TrieNode) list") (is_terminal: bool) (frequency: "32 word")

text \<open>\<^verbatim>\<open>std::make_unique<TrieNode>()\<close>: the default member initialisers.\<close>

definition make_TrieNode :: TrieNode where
  "make_TrieNode = TrieNode [] False 0"

text \<open>\<^verbatim>\<open>node->children.find(c)\<close>: \<open>None\<close> stands for \<^verbatim>\<open>children.end()\<close>.\<close>

fun find_child :: "(char \<times> TrieNode) list \<Rightarrow> char \<Rightarrow> TrieNode option" where
  "find_child [] c = None"
| "find_child ((k, v) # kvs) c = (if k = c then Some v else find_child kvs c)"

text \<open>
  Writing through the reference \<^verbatim>\<open>next\<close> that \<^verbatim>\<open>node->children[c]\<close> returns for a key that
  is present: the entry keeps its place in the iteration order.
\<close>

fun set_child :: "char \<Rightarrow> TrieNode \<Rightarrow> (char \<times> TrieNode) list \<Rightarrow> (char \<times> TrieNode) list" where
  "set_child c n [] = []"
| "set_child c n ((k, v) # kvs) = (if k = c then (k, n) # kvs else (k, v) # set_child c n kvs)"

text \<open>
  The body of \<^verbatim>\<open>Trie::insert\<close> below its lock: the loop over the characters of the word,
  then the two assignments to the node reached. The loop walks a pointer down the tree and
  mutates in place; the model rebuilds the path it walks. For a key that is absent,
  \<^verbatim>\<open>children[c]\<close> adds an entry; where the new entry lands in the iteration order is left
  open by the C++ standard. The model puts it first, which is what libstdc++ does for a key
  that hashes to an empty bucket; a key that hashes to an occupied bucket lands behind the
  entry before that bucket, and a rehash reorders the entries. What is proved below of
  the words a trie stores and returns does not depend on the order of the entries; an
  order computed on an example is that of the model.
\<close>

fun insert_loop :: "TrieNode \<Rightarrow> string \<Rightarrow> TrieNode" where
  "insert_loop node [] = TrieNode (children node) True (frequency node + 1)"
| "insert_loop node (c # cs) =
     (case find_child (children node) c of
        None \<Rightarrow>
          TrieNode ((c, insert_loop make_TrieNode cs) # children node)
            (is_terminal node) (frequency node)
      | Some next \<Rightarrow>
          TrieNode (set_child c (insert_loop next cs) (children node))
            (is_terminal node) (frequency node))"

text \<open>The body of \<^verbatim>\<open>Trie::contains\<close> below its lock.\<close>

fun contains_loop :: "TrieNode \<Rightarrow> string \<Rightarrow> bool" where
  "contains_loop node [] = is_terminal node"
| "contains_loop node (c # cs) =
     (case find_child (children node) c of
        None \<Rightarrow> False
      | Some next \<Rightarrow> contains_loop next cs)"

text \<open>
  The lookup loop at the head of \<^verbatim>\<open>Trie::suggest\<close>: the node that the prefix leads to,
  \<open>None\<close> where the source returns \<^verbatim>\<open>{}\<close> at a missing edge.
\<close>

fun suggest_loop :: "TrieNode \<Rightarrow> string \<Rightarrow> TrieNode option" where
  "suggest_loop node [] = Some node"
| "suggest_loop node (c # cs) =
     (case find_child (children node) c of
        None \<Rightarrow> None
      | Some next \<Rightarrow> suggest_loop next cs)"

text \<open>
  \<^verbatim>\<open>Trie::collect_suggestions(node, current, out, limit)\<close>. The source appends to \<^verbatim>\<open>out\<close>
  and restores \<^verbatim>\<open>current\<close> after every child (\<^verbatim>\<open>push_back\<close>, \<^verbatim>\<open>pop_back\<close>); the model
  returns the new \<^verbatim>\<open>out\<close>. \<open>collect_suggestions_children\<close> is the range-for over
  \<^verbatim>\<open>node->children\<close>, from the entry it has reached. \<^verbatim>\<open>limit\<close> and \<^verbatim>\<open>out.size()\<close> are
  \<^verbatim>\<open>std::size_t\<close>; they are only compared, so they are natural numbers here.
\<close>

fun collect_suggestions :: "TrieNode \<Rightarrow> string \<Rightarrow> string list \<Rightarrow> nat \<Rightarrow> string list"
  and collect_suggestions_children ::
    "(char \<times> TrieNode) list \<Rightarrow> string \<Rightarrow> string list \<Rightarrow> nat \<Rightarrow> string list"
where
  "collect_suggestions (TrieNode kvs terminal freq) current out limit =
     (let out1 = (if terminal then out @ [current] else out) in
      if terminal \<and> limit \<noteq> 0 \<and> length out1 \<ge> limit then out1
      else collect_suggestions_children kvs current out1 limit)"
| "collect_suggestions_children [] current out limit = out"
| "collect_suggestions_children ((k, child) # kvs) current out limit =
     (let out1 = collect_suggestions child (current @ [k]) out limit in
      if limit \<noteq> 0 \<and> length out1 \<ge> limit then out1
      else collect_suggestions_children kvs current out1 limit)"

text \<open>The body of \<^verbatim>\<open>Trie::suggest\<close> below its lock.\<close>

definition suggest_body :: "TrieNode \<Rightarrow> string \<Rightarrow> nat \<Rightarrow> string list" where
  "suggest_body r pfx limit =
     (case suggest_loop r pfx of
        None \<Rightarrow> []
      | Some node \<Rightarrow> collect_suggestions node pfx [] limit)"

section \<open>Edit distance and scoring\<close>

text \<open>
  \<^verbatim>\<open>static_cast<int>(n)\<close> for a \<^verbatim>\<open>std::size_t\<close> \<open>n\<close>: the value modulo \<open>2 ^ 32\<close>, read in
  two's complement.
\<close>

definition static_cast_int :: "nat \<Rightarrow> int" where
  "static_cast_int n = sint (word_of_nat n :: 32 word)"

text \<open>
  The inner loop of \<^verbatim>\<open>Trie::levenshtein_distance\<close>, \<^verbatim>\<open>for (j = 1; j <= n; ++j)\<close>, from the
  index \<open>j\<close> it has reached. The rows are \<^verbatim>\<open>std::vector<int>\<close> of size \<open>n + 1\<close>; every
  index the loop uses is below that size. The entries are \<^verbatim>\<open>int\<close>; they are integers here,
  which is what the source computes as long as no sum leaves the range of \<^verbatim>\<open>int\<close>.
\<close>

function inner_loop :: "string \<Rightarrow> string \<Rightarrow> nat \<Rightarrow> nat \<Rightarrow> int list \<Rightarrow> int list \<Rightarrow> int list" where
  "inner_loop a b i j prev cur =
     (if j \<le> length b then
        (let cost = (if a ! (i - 1) = b ! (j - 1) then 0 else 1) in
         inner_loop a b i (j + 1) prev
           (cur[j := min (prev ! j + 1) (min (cur ! (j - 1) + 1) (prev ! (j - 1) + cost))]))
      else cur)"
  by pat_completeness auto
termination
  by (relation "measure (\<lambda>(a, b, i, j, prev, cur). Suc (length b) - j)") auto

text \<open>
  The outer loop, \<^verbatim>\<open>for (i = 1; i <= m; ++i)\<close>, from the index \<open>i\<close> it has reached;
  \<^verbatim>\<open>std::swap(prev, cur)\<close> is the exchange of the two arguments. The result is \<^verbatim>\<open>prev\<close>
  after the loop.
\<close>

function outer_loop :: "string \<Rightarrow> string \<Rightarrow> nat \<Rightarrow> int list \<Rightarrow> int list \<Rightarrow> int list" where
  "outer_loop a b i prev cur =
     (if i \<le> length a then
        (let cur1 = cur[0 := static_cast_int i];
             cur2 = inner_loop a b i 1 prev cur1
         in outer_loop a b (i + 1) cur2 prev)
      else prev)"
  by pat_completeness auto
termination
  by (relation "measure (\<lambda>(a, b, i, prev, cur). Suc (length a) - i)") auto

text \<open>\<^verbatim>\<open>static int Trie::levenshtein_distance(const std::string &a, const std::string &b)\<close>.\<close>

definition levenshtein_distance :: "string \<Rightarrow> string \<Rightarrow> int" where
  "levenshtein_distance a b =
     (let m = length a; n = length b in
      if m = 0 then static_cast_int n
      else if n = 0 then static_cast_int m
      else
        (let prev = map static_cast_int [0..<n + 1];
             cur = replicate (n + 1) 0
         in outer_loop a b 1 prev cur ! n))"

text \<open>
  The type \<^verbatim>\<open>double\<close> and its arithmetic are not part of the repository. The type is a
  parameter \<open>'d\<close> of the model, and what \<^verbatim>\<open>score_word\<close> uses of its arithmetic is a record
  of operations: the three conversions \<^verbatim>\<open>static_cast<double>\<close> (from \<^verbatim>\<open>int\<close>, from
  \<^verbatim>\<open>std::size_t\<close>, from \<^verbatim>\<open>std::uint32_t\<close>), the literals \<^verbatim>\<open>1.0\<close>, \<^verbatim>\<open>0.02\<close> and \<^verbatim>\<open>0.05\<close>,
  and \<^verbatim>\<open>+\<close>, \<^verbatim>\<open>*\<close> and \<^verbatim>\<open>/\<close>. Whatever is proved for every such record holds for the
  rounding arithmetic of the machine as well as for exact arithmetic.
\<close>

record 'd double_ops =
  of_int_d :: "int \<Rightarrow> 'd"
  of_size_d :: "nat \<Rightarrow> 'd"
  of_u32_d :: "32 word \<Rightarrow> 'd"
  lit_1_0 :: 'd
  lit_0_02 :: 'd
  lit_0_05 :: 'd
  add_d :: "'d \<Rightarrow> 'd \<Rightarrow> 'd"
  mul_d :: "'d \<Rightarrow> 'd \<Rightarrow> 'd"
  div_d :: "'d \<Rightarrow> 'd \<Rightarrow> 'd"

text \<open>
  Exact arithmetic: the operations on the real numbers, without rounding. It is one
  instance of the record, on which the model is evaluated in examples. It is not the
  arithmetic of the machine: a \<^verbatim>\<open>double\<close> result is rounded, and \<^verbatim>\<open>1.0 / 0.0\<close> is infinite
  there and \<open>0\<close> here.
\<close>

definition exact :: "real double_ops" where
  "exact =
     \<lparr>of_int_d = real_of_int, of_size_d = real, of_u32_d = (\<lambda>f. real (unat f)),
      lit_1_0 = 1, lit_0_02 = 0.02, lit_0_05 = 0.05,
      add_d = (+), mul_d = (*), div_d = (/)\<rparr>"

text \<open>\<^verbatim>\<open>Trie::score_word(query, word, frequency)\<close>, in the arithmetic \<open>fp\<close>.\<close>

definition score_word :: "'d double_ops \<Rightarrow> string \<Rightarrow> string \<Rightarrow> 32 word \<Rightarrow> 'd" where
  "score_word fp query w freq =
     (let d = levenshtein_distance query w;
          sim = div_d fp (lit_1_0 fp) (add_d fp (lit_1_0 fp) (of_int_d fp d));
          len_bonus = mul_d fp (of_size_d fp (length w)) (lit_0_02 fp);
          freq_bonus = mul_d fp (of_u32_d fp freq) (lit_0_05 fp)
      in add_d fp (add_d fp sim len_bonus) freq_bonus)"

section \<open>Ranked search\<close>

text \<open>\<^verbatim>\<open>struct ScoredWord\<close>.\<close>

record 'd ScoredWord =
  word :: string
  score :: 'd

text \<open>\<^verbatim>\<open>Trie::collect_scored(node, current, out, query)\<close>, in the manner of \<open>collect_suggestions\<close>.\<close>

fun collect_scored ::
    "'d double_ops \<Rightarrow> TrieNode \<Rightarrow> string \<Rightarrow> 'd ScoredWord list \<Rightarrow> string \<Rightarrow> 'd ScoredWord list"
  and collect_scored_children ::
    "'d double_ops \<Rightarrow> (char \<times> TrieNode) list \<Rightarrow> string \<Rightarrow> 'd ScoredWord list \<Rightarrow> string \<Rightarrow>
       'd ScoredWord list"
where
  "collect_scored fp (TrieNode kvs terminal freq) current out query =
     collect_scored_children fp kvs current
       (if terminal then out @ [\<lparr>word = current, score = score_word fp query current freq\<rparr>]
        else out)
       query"
| "collect_scored_children fp [] current out query = out"
| "collect_scored_children fp ((k, child) # kvs) current out query =
     collect_scored_children fp kvs current
       (collect_scored fp child (current @ [k]) out query) query"

text \<open>
  The comparator handed to \<^verbatim>\<open>std::sort\<close>. \<^verbatim>\<open>a.word < b.word\<close> on \<^verbatim>\<open>std::string\<close> is the
  lexicographic order of the bytes read as unsigned values, which is the order of
  \<^typ>\<open>char list\<close>. The comparisons \<^verbatim>\<open>!=\<close> and \<^verbatim>\<open>>\<close> of two scores are those of a linear
  order on \<open>'d\<close>: no score is a NaN, since \<^verbatim>\<open>score_word\<close> divides by zero at most for the
  quotient \<^verbatim>\<open>1.0 / 0.0\<close> and subtracts nowhere.
\<close>

definition sort_cmp :: "('d::linorder) ScoredWord \<Rightarrow> 'd ScoredWord \<Rightarrow> bool" where
  "sort_cmp a b = (if score a \<noteq> score b then score a > score b else word a < word b)"

text \<open>
  \<^verbatim>\<open>std::sort(scored.begin(), scored.end(), cmp)\<close>. The standard fixes the result, not the
  algorithm: a permutation of the input in which no element is ordered before an earlier
  one. The model sorts by insertion; \<open>std_sort_unique\<close> below shows that under
  \<open>sort_cmp\<close> every such permutation is this one.
\<close>

fun sort_insert :: "('d::linorder) ScoredWord \<Rightarrow> 'd ScoredWord list \<Rightarrow> 'd ScoredWord list" where
  "sort_insert x [] = [x]"
| "sort_insert x (y # ys) = (if sort_cmp x y then x # y # ys else y # sort_insert x ys)"

definition std_sort :: "('d::linorder) ScoredWord list \<Rightarrow> 'd ScoredWord list" where
  "std_sort xs = foldr sort_insert xs []"

text \<open>The body of \<^verbatim>\<open>Trie::search_ranked\<close> below its lock.\<close>

definition search_ranked_body ::
    "('d::linorder) double_ops \<Rightarrow> TrieNode \<Rightarrow> string \<Rightarrow> nat \<Rightarrow> string list" where
  "search_ranked_body fp r query limit =
     (let scored = std_sort (collect_scored fp r [] [] query);
          take_n = (if limit = 0 then length scored else min limit (length scored))
      in map word (take take_n scored))"

section \<open>The trie and its lock\<close>

text \<open>
  \<^verbatim>\<open>class Trie\<close>: the members \<^verbatim>\<open>root_\<close>, \<^verbatim>\<open>thread_safe_\<close> and \<^verbatim>\<open>mtx_\<close>, named here
  without the underscore at the end. \<open>mtx\<close> is \<open>True\<close> while the \<^verbatim>\<open>std::mutex\<close> is held.
\<close>

record Trie =
  root :: TrieNode
  thread_safe :: bool
  mtx :: bool

text \<open>The constructor \<^verbatim>\<open>Trie(bool thread_safe = false)\<close>.\<close>

definition Trie_ctor :: "bool \<Rightarrow> Trie" where
  "Trie_ctor ts = \<lparr>root = make_TrieNode, thread_safe = ts, mtx = False\<rparr>"

text \<open>
  \<^verbatim>\<open>LockGuard(const Trie &t)\<close>: returns the trie with the mutex taken and the guard's
  \<^verbatim>\<open>locked_\<close> flag. \<^verbatim>\<open>std::mutex::lock\<close> on a mutex that is already held does not return;
  that is the value \<open>None\<close>.
\<close>

definition LockGuard :: "Trie \<Rightarrow> (Trie \<times> bool) option" where
  "LockGuard t =
     (if thread_safe t
      then (if mtx t then None else Some (t\<lparr>mtx := True\<rparr>, True))
      else Some (t, False))"

text \<open>\<^verbatim>\<open>~LockGuard()\<close>.\<close>

definition LockGuard_dtor :: "Trie \<Rightarrow> bool \<Rightarrow> Trie" where
  "LockGuard_dtor t locked = (if locked then t\<lparr>mtx := False\<rparr> else t)"

text \<open>\<^verbatim>\<open>void Trie::insert(const std::string &word)\<close>.\<close>

definition insert_trie :: "Trie \<Rightarrow> string \<Rightarrow> Trie option" where
  "insert_trie t w =
     (case LockGuard t of
        None \<Rightarrow> None
      | Some (t1, locked) \<Rightarrow>
          Some (LockGuard_dtor (t1\<lparr>root := insert_loop (root t1) w\<rparr>) locked))"

text \<open>
  \<^verbatim>\<open>bool Trie::contains(const std::string &word) const\<close>. The method is \<^verbatim>\<open>const\<close> but the
  mutex is \<^verbatim>\<open>mutable\<close>, so the trie after the call is part of the result.
\<close>

definition contains :: "Trie \<Rightarrow> string \<Rightarrow> (bool \<times> Trie) option" where
  "contains t w =
     (case LockGuard t of
        None \<Rightarrow> None
      | Some (t1, locked) \<Rightarrow> Some (contains_loop (root t1) w, LockGuard_dtor t1 locked))"

text \<open>\<^verbatim>\<open>std::vector<std::string> Trie::suggest(const std::string &prefix, std::size_t limit) const\<close>.\<close>

definition suggest :: "Trie \<Rightarrow> string \<Rightarrow> nat \<Rightarrow> (string list \<times> Trie) option" where
  "suggest t pfx limit =
     (case LockGuard t of
        None \<Rightarrow> None
      | Some (t1, locked) \<Rightarrow> Some (suggest_body (root t1) pfx limit, LockGuard_dtor t1 locked))"

text \<open>\<^verbatim>\<open>std::vector<std::string> Trie::search_ranked(const std::string &query, std::size_t limit) const\<close>.\<close>

definition search_ranked ::
    "('d::linorder) double_ops \<Rightarrow> Trie \<Rightarrow> string \<Rightarrow> nat \<Rightarrow> (string list \<times> Trie) option" where
  "search_ranked fp t query limit =
     (case LockGuard t of
        None \<Rightarrow> None
      | Some (t1, locked) \<Rightarrow>
          Some (search_ranked_body fp (root t1) query limit, LockGuard_dtor t1 locked))"

section \<open>Sequences of calls\<close>

text \<open>A sequence of \<^verbatim>\<open>insert\<close> calls, one after the other, as the tests and examples make them.\<close>

fun inserts :: "Trie \<Rightarrow> string list \<Rightarrow> Trie option" where
  "inserts t [] = Some t"
| "inserts t (w # ws) = (case insert_trie t w of None \<Rightarrow> None | Some t1 \<Rightarrow> inserts t1 ws)"

text \<open>
  A caller's use of one trie from one thread: a list of calls to the four public
  operations, each made after the one before it has returned, with what each returned.
\<close>

datatype call = Insert string | Contains string | Suggest string nat | Search_ranked string nat

datatype outcome = Returned | Answer bool | Words "string list"

fun call_trie :: "('d::linorder) double_ops \<Rightarrow> Trie \<Rightarrow> call \<Rightarrow> (outcome \<times> Trie) option" where
  "call_trie fp t (Insert w) = map_option (\<lambda>t1. (Returned, t1)) (insert_trie t w)"
| "call_trie fp t (Contains w) = map_option (\<lambda>(r, t1). (Answer r, t1)) (contains t w)"
| "call_trie fp t (Suggest p l) = map_option (\<lambda>(r, t1). (Words r, t1)) (suggest t p l)"
| "call_trie fp t (Search_ranked q l) =
     map_option (\<lambda>(r, t1). (Words r, t1)) (search_ranked fp t q l)"

fun calls :: "('d::linorder) double_ops \<Rightarrow> Trie \<Rightarrow> call list \<Rightarrow> (outcome list \<times> Trie) option" where
  "calls fp t [] = Some ([], t)"
| "calls fp t (c # cs) =
     (case call_trie fp t c of
        None \<Rightarrow> None
      | Some (r, t1) \<Rightarrow> map_option (\<lambda>(rs, t2). (r # rs, t2)) (calls fp t1 cs))"

section \<open>Notions used in the statements\<close>

text \<open>
  The invariant of \<^verbatim>\<open>std::unordered_map\<close> on every node of a tree: no key occurs twice
  among the entries of a node.
\<close>

fun wf_node :: "TrieNode \<Rightarrow> bool"
  and wf_children :: "(char \<times> TrieNode) list \<Rightarrow> bool"
where
  "wf_node (TrieNode kvs terminal freq) = wf_children kvs"
| "wf_children [] = True"
| "wf_children ((k, child) # kvs) = (find_child kvs k = None \<and> wf_node child \<and> wf_children kvs)"

text \<open>
  The terminal nodes below a node, each with the path that leads to it and its frequency,
  in the order of a depth-first traversal that visits a node before its children and the
  children in the iteration order of the entries.
\<close>

fun entries :: "TrieNode \<Rightarrow> (string \<times> 32 word) list"
  and entries_children :: "(char \<times> TrieNode) list \<Rightarrow> (string \<times> 32 word) list"
where
  "entries (TrieNode kvs terminal freq) =
     (if terminal then [([], freq)] else []) @ entries_children kvs"
| "entries_children [] = []"
| "entries_children ((k, child) # kvs) =
     map (\<lambda>(s, f). (k # s, f)) (entries child) @ entries_children kvs"

text \<open>
  The recurrence of the edit distance as the specification writes it: \<open>cell a b i j\<close> is
  the distance between the first \<open>i\<close> units of \<open>a\<close> and the first \<open>j\<close> units of \<open>b\<close>.
\<close>

fun cell :: "string \<Rightarrow> string \<Rightarrow> nat \<Rightarrow> nat \<Rightarrow> int" where
  "cell a b 0 j = int j"
| "cell a b (Suc i) 0 = int (Suc i)"
| "cell a b (Suc i) (Suc j) =
     min (cell a b i (Suc j) + 1)
       (min (cell a b (Suc i) j + 1) (cell a b i j + (if a ! i = b ! j then 0 else 1)))"

text \<open>
  The terminal flag and the frequency of the node that a path leads to, \<open>None\<close> when the
  path leaves the tree.
\<close>

definition node_state :: "TrieNode \<Rightarrow> string \<Rightarrow> (bool \<times> 32 word) option" where
  "node_state r p = map_option (\<lambda>n. (is_terminal n, frequency n)) (suggest_loop r p)"

text \<open>The occurrence count that the trie stores for a word: the frequency of its node.\<close>

definition stored_frequency :: "TrieNode \<Rightarrow> string \<Rightarrow> 32 word" where
  "stored_frequency r w = (case suggest_loop r w of None \<Rightarrow> 0 | Some n \<Rightarrow> frequency n)"

text \<open>
  The score and the ranking rule as the specification writes them, for the words of a trie
  with root \<open>r\<close> and a query \<open>q\<close>: the score of a word from its edit distance to the
  query, its length and the occurrence count \<open>f\<close> stored for it, in the arithmetic \<open>fp\<close>.
\<close>

definition spec_score :: "'d double_ops \<Rightarrow> TrieNode \<Rightarrow> string \<Rightarrow> string \<Rightarrow> 'd" where
  "spec_score fp r q w =
     (let d = levenshtein_distance q w; f = stored_frequency r w in
      add_d fp
        (add_d fp (div_d fp (lit_1_0 fp) (add_d fp (lit_1_0 fp) (of_int_d fp d)))
           (mul_d fp (of_size_d fp (length w)) (lit_0_02 fp)))
        (mul_d fp (of_u32_d fp f) (lit_0_05 fp)))"

definition ranked_before ::
    "('d::linorder) double_ops \<Rightarrow> TrieNode \<Rightarrow> string \<Rightarrow> string \<Rightarrow> string \<Rightarrow> bool" where
  "ranked_before fp r q a b =
     (spec_score fp r q a > spec_score fp r q b \<or>
      (spec_score fp r q a = spec_score fp r q b \<and> a < b))"

text \<open>
  The node structure of a tree: its edges, in their iteration order, and its terminal
  flags, with every frequency put to 0.
\<close>

fun structure_of :: "TrieNode \<Rightarrow> TrieNode"
  and structure_of_children :: "(char \<times> TrieNode) list \<Rightarrow> (char \<times> TrieNode) list"
where
  "structure_of (TrieNode kvs terminal freq) = TrieNode (structure_of_children kvs) terminal 0"
| "structure_of_children [] = []"
| "structure_of_children ((k, child) # kvs) = (k, structure_of child) # structure_of_children kvs"

section \<open>Insertion and membership\<close>

lemma find_child_set_child:
  "find_child (set_child c n kvs) k =
     (if k = c then map_option (\<lambda>_. n) (find_child kvs c) else find_child kvs k)"
  by (induction kvs) auto

lemma contains_insert_loop_fresh:
  "contains_loop (insert_loop make_TrieNode w) v = (v = w)"
proof (induction w arbitrary: v)
  case Nil
  show ?case by (cases v) (simp_all add: make_TrieNode_def)
next
  case (Cons c cs)
  show ?case
  proof (cases v)
    case Nil
    then show ?thesis by (simp add: make_TrieNode_def)
  next
    case (Cons d ds)
    then show ?thesis using Cons.IH [of ds] by (simp add: make_TrieNode_def)
  qed
qed

lemma contains_loop_insert_loop:
  "contains_loop (insert_loop node w) v = (v = w \<or> contains_loop node v)"
proof (induction w arbitrary: node v)
  case Nil
  show ?case by (cases v) (simp_all split: option.splits)
next
  case (Cons c cs)
  show ?case
  proof (cases v)
    case Nil
    then show ?thesis by (simp split: option.splits)
  next
    case v: (Cons d ds)
    show ?thesis
    proof (cases "find_child (children node) c")
      case None
      then show ?thesis
        using v by (simp add: contains_insert_loop_fresh) (auto split: option.splits)
    next
      case (Some nxt)
      then show ?thesis
        using v Cons.IH [of nxt ds]
        by (simp add: find_child_set_child)
    qed
  qed
qed

text \<open>
  What the four operations do on a trie whose mutex is free, in either mode: the guard
  takes the mutex if the mode asks for it and releases it on the way out.
\<close>

lemma insert_trie_idle:
  "\<not> mtx t \<Longrightarrow> insert_trie t w = Some (t\<lparr>root := insert_loop (root t) w\<rparr>)"
  by (simp add: insert_trie_def LockGuard_def LockGuard_dtor_def)

lemma contains_idle:
  "\<not> mtx t \<Longrightarrow> contains t w = Some (contains_loop (root t) w, t)"
  by (simp add: contains_def LockGuard_def LockGuard_dtor_def)

lemma suggest_idle:
  "\<not> mtx t \<Longrightarrow> suggest t p l = Some (suggest_body (root t) p l, t)"
  by (simp add: suggest_def LockGuard_def LockGuard_dtor_def)

lemma search_ranked_idle:
  "\<not> mtx t \<Longrightarrow> search_ranked fp t q l = Some (search_ranked_body fp (root t) q l, t)"
  by (simp add: search_ranked_def LockGuard_def LockGuard_dtor_def)

lemma inserts_idle:
  "\<not> mtx t \<Longrightarrow> inserts t ws = Some (t\<lparr>root := foldl insert_loop (root t) ws\<rparr>)"
  by (induction ws arbitrary: t) (simp_all add: insert_trie_idle)

lemma contains_loop_foldl:
  "contains_loop (foldl insert_loop node ws) v = (v \<in> set ws \<or> contains_loop node v)"
  by (induction ws arbitrary: node) (auto simp: contains_loop_insert_loop)

lemma contains_loop_make: "contains_loop make_TrieNode v = False"
  by (cases v) (simp_all add: make_TrieNode_def)

text \<open>
  Claim C1. On a trie whose mutex is free (no call is in progress), \<^verbatim>\<open>insert(W)\<close> returns and
  \<^verbatim>\<open>contains(W)\<close> is true afterwards, while \<^verbatim>\<open>contains(V)\<close> for any other word \<open>V\<close> answers
  as it did before the insertion. For a trie built by inserting the words \<open>ws\<close> into a new
  trie, \<^verbatim>\<open>contains(V)\<close> is true exactly for the words of \<open>ws\<close>: a word that was never
  inserted is not contained, also when it is a proper prefix of an inserted word.
\<close>

theorem insert_contains_round_trip:
  "\<not> mtx t \<Longrightarrow>
     (\<exists>t1. insert_trie t W = Some t1 \<and> contains t1 W = Some (True, t1) \<and>
        (\<forall>V. V \<noteq> W \<longrightarrow> map_option fst (contains t1 V) = map_option fst (contains t V))) \<and>
     (\<exists>t2. inserts (Trie_ctor ts) ws = Some t2 \<and>
        (\<forall>V. contains t2 V = Some (V \<in> set ws, t2)))"
  by (simp add: insert_trie_idle contains_idle inserts_idle Trie_ctor_def
      contains_loop_insert_loop contains_loop_foldl contains_loop_make)

theorem insert_contains_round_trip_witness:
  "\<not> mtx (Trie_ctor False) \<and>
   (\<exists>t1. insert_trie (Trie_ctor False) ''ali'' = Some t1 \<and> contains t1 ''ali'' = Some (True, t1)) \<and>
   (\<exists>t2. inserts (Trie_ctor False) [''alice'', ''alicia'', ''bob''] = Some t2 \<and>
      contains t2 ''ali'' = Some (False, t2) \<and> contains t2 ''bob'' = Some (True, t2))"
proof -
  have idle: "\<not> mtx (Trie_ctor False)"
    by (simp add: Trie_ctor_def)
  from insert_contains_round_trip [OF idle, of "''ali''" False "[''alice'', ''alicia'', ''bob'']"]
  obtain t1 t2 where
    "insert_trie (Trie_ctor False) ''ali'' = Some t1" "contains t1 ''ali'' = Some (True, t1)"
    "inserts (Trie_ctor False) [''alice'', ''alicia'', ''bob''] = Some t2"
    "\<forall>V. contains t2 V = Some (V \<in> set [''alice'', ''alicia'', ''bob''], t2)"
    by blast
  then show ?thesis using idle by simp
qed

section \<open>Queries and the lock\<close>

lemma inserts_ctor:
  "inserts (Trie_ctor ts) ws =
     Some \<lparr>root = foldl insert_loop make_TrieNode ws, thread_safe = ts, mtx = False\<rparr>"
  by (simp add: inserts_idle Trie_ctor_def)

lemma call_trie_idle:
  assumes "\<not> mtx t"
  shows "\<exists>r n. call_trie fp t c = Some (r, t\<lparr>root := n\<rparr>) \<and>
           (\<forall>u. \<not> mtx u \<longrightarrow> root u = root t \<longrightarrow> call_trie fp u c = Some (r, u\<lparr>root := n\<rparr>))"
proof (cases c)
  case (Insert w)
  have "call_trie fp t c = Some (Returned, t\<lparr>root := insert_loop (root t) w\<rparr>)"
    using Insert assms by (simp add: insert_trie_idle)
  moreover have "call_trie fp u c = Some (Returned, u\<lparr>root := insert_loop (root t) w\<rparr>)"
    if "\<not> mtx u" "root u = root t" for u
    using Insert that by (simp add: insert_trie_idle)
  ultimately show ?thesis by blast
next
  case (Contains w)
  have "call_trie fp t c = Some (Answer (contains_loop (root t) w), t\<lparr>root := root t\<rparr>)"
    using Contains assms by (simp add: contains_idle)
  moreover have "call_trie fp u c = Some (Answer (contains_loop (root t) w), u\<lparr>root := root t\<rparr>)"
    if "\<not> mtx u" "root u = root t" for u
    using Contains that by (simp add: contains_idle)
  ultimately show ?thesis by blast
next
  case (Suggest p l)
  have "call_trie fp t c = Some (Words (suggest_body (root t) p l), t\<lparr>root := root t\<rparr>)"
    using Suggest assms by (simp add: suggest_idle)
  moreover have "call_trie fp u c = Some (Words (suggest_body (root t) p l), u\<lparr>root := root t\<rparr>)"
    if "\<not> mtx u" "root u = root t" for u
    using Suggest that by (simp add: suggest_idle)
  ultimately show ?thesis by blast
next
  case (Search_ranked q l)
  have "call_trie fp t c = Some (Words (search_ranked_body fp (root t) q l), t\<lparr>root := root t\<rparr>)"
    using Search_ranked assms by (simp add: search_ranked_idle)
  moreover have "call_trie fp u c = Some (Words (search_ranked_body fp (root t) q l), u\<lparr>root := root t\<rparr>)"
    if "\<not> mtx u" "root u = root t" for u
    using Search_ranked that by (simp add: search_ranked_idle)
  ultimately show ?thesis by blast
qed

lemma calls_same_root:
  "\<not> mtx t \<Longrightarrow> \<not> mtx u \<Longrightarrow> root u = root t \<Longrightarrow>
     \<exists>rs t1 u1. calls fp t cs = Some (rs, t1) \<and> calls fp u cs = Some (rs, u1) \<and>
       root u1 = root t1 \<and> \<not> mtx t1 \<and> \<not> mtx u1 \<and>
       thread_safe t1 = thread_safe t \<and> thread_safe u1 = thread_safe u"
proof (induction cs arbitrary: t u)
  case Nil
  then show ?case by simp
next
  case (Cons c cs)
  from call_trie_idle [OF Cons.prems(1), of fp c] obtain r n where
    t: "call_trie fp t c = Some (r, t\<lparr>root := n\<rparr>)" and
    u: "call_trie fp u c = Some (r, u\<lparr>root := n\<rparr>)"
    using Cons.prems by blast
  have "\<not> mtx (t\<lparr>root := n\<rparr>)" "\<not> mtx (u\<lparr>root := n\<rparr>)" "root (u\<lparr>root := n\<rparr>) = root (t\<lparr>root := n\<rparr>)"
    using Cons.prems by simp_all
  from Cons.IH [OF this] obtain rs t1 u1 where
    "calls fp (t\<lparr>root := n\<rparr>) cs = Some (rs, t1)" "calls fp (u\<lparr>root := n\<rparr>) cs = Some (rs, u1)"
    "root u1 = root t1" "\<not> mtx t1" "\<not> mtx u1"
    "thread_safe t1 = thread_safe t" "thread_safe u1 = thread_safe u"
    by auto
  then show ?case using t u by simp
qed

text \<open>
  Claim C9. On a trie whose mutex is free, \<^verbatim>\<open>contains\<close>, \<^verbatim>\<open>suggest\<close> and \<^verbatim>\<open>search_ranked\<close>
  return, and the trie after the call is the trie before it: the root node, and with it
  every node's children, terminal flag and frequency, the mode flag and the mutex.
\<close>

theorem queries_are_pure:
  "\<not> mtx t \<Longrightarrow>
     (\<exists>r. contains t w = Some (r, t)) \<and>
     (\<exists>r. suggest t p l = Some (r, t)) \<and>
     (\<exists>r. search_ranked fp t q k = Some (r, t))"
  by (simp add: contains_idle suggest_idle search_ranked_idle)

theorem queries_are_pure_witness:
  "\<not> mtx (the (inserts (Trie_ctor True) [''ab'', ''a''])) \<and>
   contains (the (inserts (Trie_ctor True) [''ab'', ''a''])) ''ab'' =
     Some (True, the (inserts (Trie_ctor True) [''ab'', ''a''])) \<and>
   suggest (the (inserts (Trie_ctor True) [''ab'', ''a''])) ''a'' 1 =
     Some ([''a''], the (inserts (Trie_ctor True) [''ab'', ''a''])) \<and>
   (\<exists>r. search_ranked exact (the (inserts (Trie_ctor True) [''ab'', ''a''])) ''a'' 0 =
     Some (r, the (inserts (Trie_ctor True) [''ab'', ''a''])))"
proof -
  let ?t = "the (inserts (Trie_ctor True) [''ab'', ''a''])"
  have t: "?t = \<lparr>root = foldl insert_loop make_TrieNode [''ab'', ''a''], thread_safe = True, mtx = False\<rparr>"
    by (simp only: inserts_ctor option.sel)
  have idle: "\<not> mtx ?t"
    by (simp only: t) simp
  have c: "contains_loop (root ?t) ''ab'' = True"
    by (simp only: t) (simp add: make_TrieNode_def)
  have s: "suggest_body (root ?t) ''a'' 1 = [''a'']"
    by (simp only: t) (simp add: make_TrieNode_def suggest_body_def)
  from queries_are_pure [OF idle, of "''ab''" "''a''" 1 exact "''a''" 0]
  have "(\<exists>r. contains ?t ''ab'' = Some (r, ?t)) \<and> (\<exists>r. suggest ?t ''a'' 1 = Some (r, ?t)) \<and>
        (\<exists>r. search_ranked exact ?t ''a'' 0 = Some (r, ?t))" .
  moreover have "contains ?t ''ab'' = Some (contains_loop (root ?t) ''ab'', ?t)"
    using idle by (rule contains_idle)
  moreover have "suggest ?t ''a'' 1 = Some (suggest_body (root ?t) ''a'' 1, ?t)"
    using idle by (rule suggest_idle)
  ultimately show ?thesis using idle c s by simp
qed

text \<open>
  Claim C10. For every list of calls made one after the other, the trie constructed with
  \<^verbatim>\<open>thread_safe = true\<close> and the trie constructed with \<^verbatim>\<open>thread_safe = false\<close> both return
  from every call, return the same results, and end with the same node store and a free
  mutex: the flag decides only whether the mutex is taken and released around each call.
\<close>

theorem thread_safe_flag_unobservable:
  "\<exists>rs t1 t2. calls fp (Trie_ctor True) cs = Some (rs, t1) \<and>
     calls fp (Trie_ctor False) cs = Some (rs, t2) \<and>
     root t1 = root t2 \<and> \<not> mtx t1 \<and> \<not> mtx t2 \<and> thread_safe t1 \<and> \<not> thread_safe t2"
proof -
  have "\<not> mtx (Trie_ctor False)" "\<not> mtx (Trie_ctor True)"
    "root (Trie_ctor True) = root (Trie_ctor False)"
    by (simp_all add: Trie_ctor_def)
  from calls_same_root [OF this, of fp cs] show ?thesis
    by (auto simp: Trie_ctor_def)
qed

theorem thread_safe_flag_unobservable_witness:
  "\<exists>t1 t2.
     calls exact (Trie_ctor True)
       [Insert ''abc'', Contains ''abc'', Contains ''ab'', Suggest ''a'' 0, Insert ''abd'',
        Search_ranked ''abd'' 1] =
       Some ([Returned, Answer True, Answer False, Words [''abc''], Returned, Words [''abd'']], t1) \<and>
     calls exact (Trie_ctor False)
       [Insert ''abc'', Contains ''abc'', Contains ''ab'', Suggest ''a'' 0, Insert ''abd'',
        Search_ranked ''abd'' 1] =
       Some ([Returned, Answer True, Answer False, Words [''abc''], Returned, Words [''abd'']], t2)"
proof -
  let ?cs = "[Insert ''abc'', Contains ''abc'', Contains ''ab'', Suggest ''a'' 0, Insert ''abd'',
    Search_ranked ''abd'' 1]"
  from thread_safe_flag_unobservable [of exact ?cs] obtain rs t1 t2 where
    a: "calls exact (Trie_ctor True) ?cs = Some (rs, t1)" and
    b: "calls exact (Trie_ctor False) ?cs = Some (rs, t2)"
    by blast
  have "map_option fst (calls exact (Trie_ctor False) ?cs) =
      Some [Returned, Answer True, Answer False, Words [''abc''], Returned, Words [''abd'']]"
    by code_simp
  with b have "rs = [Returned, Answer True, Answer False, Words [''abc''], Returned, Words [''abd'']]"
    by simp
  with a b show ?thesis by blast
qed

section \<open>Depth-first traversal\<close>

lemma collect_suggestions_entries:
  "(limit = 0 \<or> length out < limit \<longrightarrow>
      collect_suggestions node current out limit =
        (if limit = 0 then out @ map (\<lambda>e. current @ fst e) (entries node)
         else take limit (out @ map (\<lambda>e. current @ fst e) (entries node))))"
  "(limit = 0 \<or> length out < limit \<longrightarrow>
      collect_suggestions_children kvs current out limit =
        (if limit = 0 then out @ map (\<lambda>e. current @ fst e) (entries_children kvs)
         else take limit (out @ map (\<lambda>e. current @ fst e) (entries_children kvs))))"
proof (induction node current out limit and kvs current out limit
    rule: collect_suggestions_collect_suggestions_children.induct)
  case (1 kvs terminal freq current out limit)
  show ?case
  proof (cases "terminal \<and> limit \<noteq> 0 \<and> limit \<le> length (out @ [current])")
    case True
    show ?thesis
    proof (intro impI)
      assume "limit = 0 \<or> length out < limit"
      with True have "limit = Suc (length out)" by simp
      then show "collect_suggestions (TrieNode kvs terminal freq) current out limit =
        (if limit = 0 then out @ map (\<lambda>e. current @ fst e) (entries (TrieNode kvs terminal freq))
         else take limit (out @ map (\<lambda>e. current @ fst e) (entries (TrieNode kvs terminal freq))))"
        using True by simp
    qed
  next
    case False
    then show ?thesis using 1 by (auto simp: Let_def)
  qed
next
  case (2 current out limit)
  then show ?case by simp
next
  case (3 k child kvs current out limit)
  let ?c = "map (\<lambda>e. (current @ [k]) @ fst e) (entries child)"
  let ?r = "map (\<lambda>e. current @ fst e) (entries_children kvs)"
  have m: "map (\<lambda>e. current @ fst e) (entries_children ((k, child) # kvs)) = ?c @ ?r"
    by (simp add: case_prod_unfold comp_def)
  show ?case
  proof (intro impI)
    assume a: "limit = 0 \<or> length out < limit"
    have "collect_suggestions_children ((k, child) # kvs) current out limit =
        (if limit = 0 then out @ ?c @ ?r else take limit (out @ ?c @ ?r))"
    proof (cases "limit = 0")
      case True
      then show ?thesis using 3 by (simp add: Let_def)
    next
      case False
      with a have lt: "length out < limit" by simp
      from 3(1) lt False have o1: "collect_suggestions child (current @ [k]) out limit = take limit (out @ ?c)"
        by simp
      show ?thesis
      proof (cases "limit \<le> length (take limit (out @ ?c))")
        case True
        then have "take limit (out @ ?c @ ?r) = take limit (out @ ?c)"
          by simp
        then show ?thesis using True False o1 by (simp add: Let_def del: append_assoc take_append)
      next
        case F: False
        then have full: "take limit (out @ ?c) = out @ ?c" by simp
        have "length (out @ ?c) < limit" using F by simp
        with 3(2) [OF o1[symmetric]] F False o1 full show ?thesis
          by (simp add: Let_def)
      qed
    qed
    then show "collect_suggestions_children ((k, child) # kvs) current out limit =
        (if limit = 0 then out @ map (\<lambda>e. current @ fst e) (entries_children ((k, child) # kvs))
         else take limit (out @ map (\<lambda>e. current @ fst e) (entries_children ((k, child) # kvs))))"
      by (simp only: m)
  qed
qed

lemma collect_scored_entries:
  "collect_scored fp node current out q =
     out @ map (\<lambda>e. \<lparr>word = current @ fst e, score = score_word fp q (current @ fst e) (snd e)\<rparr>)
       (entries node)"
  "collect_scored_children fp kvs current out q =
     out @ map (\<lambda>e. \<lparr>word = current @ fst e, score = score_word fp q (current @ fst e) (snd e)\<rparr>)
       (entries_children kvs)"
  by (induction fp node current out q and fp kvs current out q
      rule: collect_scored_collect_scored_children.induct)
    (simp_all add: case_prod_unfold comp_def)

lemma find_child_None_iff: "find_child kvs k = None \<longleftrightarrow> k \<notin> fst ` set kvs"
  by (induction kvs k rule: find_child.induct) auto

lemma find_child_Some_iff:
  "wf_children kvs \<Longrightarrow> find_child kvs k = Some c \<longleftrightarrow> (k, c) \<in> set kvs"
proof (induction kvs k rule: find_child.induct)
  case (1 c)
  then show ?case by simp
next
  case (2 k' v kvs k)
  then have "(k', c) \<notin> set kvs"
    by (force simp: find_child_None_iff)
  with 2 show ?case by auto
qed

lemma wf_children_member: "wf_children kvs \<Longrightarrow> (k, c) \<in> set kvs \<Longrightarrow> wf_node c"
  by (induction kvs) auto

lemma entries_children_iff:
  "(s, f) \<in> set (entries_children kvs) \<longleftrightarrow>
     (\<exists>k c s'. (k, c) \<in> set kvs \<and> s = k # s' \<and> (s', f) \<in> set (entries c))"
proof (induction kvs)
  case Nil
  then show ?case by simp
next
  case (Cons a kvs)
  obtain k c where a: "a = (k, c)" by (cases a)
  have "(s, f) \<in> set (entries_children (a # kvs)) \<longleftrightarrow>
      (\<exists>s'. s = k # s' \<and> (s', f) \<in> set (entries c)) \<or> (s, f) \<in> set (entries_children kvs)"
    by (auto simp: a)
  then show ?case unfolding Cons.IH a by auto
qed

lemma entries_iff:
  "wf_node node \<Longrightarrow>
     (s, f) \<in> set (entries node) \<longleftrightarrow>
     (\<exists>nd. suggest_loop node s = Some nd \<and> is_terminal nd \<and> frequency nd = f)"
proof (induction s arbitrary: node)
  case Nil
  then show ?case by (cases node) (auto simp: entries_children_iff)
next
  case (Cons k s)
  obtain kvs terminal freq where node: "node = TrieNode kvs terminal freq"
    by (cases node)
  with Cons.prems have wf: "wf_children kvs" by simp
  have "(k # s, f) \<in> set (entries node) \<longleftrightarrow> (\<exists>c. (k, c) \<in> set kvs \<and> (s, f) \<in> set (entries c))"
    by (auto simp: node entries_children_iff)
  also have "\<dots> \<longleftrightarrow> (\<exists>c. find_child kvs k = Some c \<and> (s, f) \<in> set (entries c))"
    by (simp add: find_child_Some_iff [OF wf])
  also have "\<dots> \<longleftrightarrow> (\<exists>c. find_child kvs k = Some c \<and>
      (\<exists>nd. suggest_loop c s = Some nd \<and> is_terminal nd \<and> frequency nd = f))"
    using Cons.IH wf_children_member [OF wf] find_child_Some_iff [OF wf] by blast
  also have "\<dots> \<longleftrightarrow> (\<exists>nd. suggest_loop node (k # s) = Some nd \<and> is_terminal nd \<and> frequency nd = f)"
    by (auto simp: node split: option.splits)
  finally show ?case .
qed

lemma entries_children_keys:
  assumes "(s, f) \<in> set (entries_children kvs)"
  shows "\<exists>k s'. s = k # s' \<and> k \<in> fst ` set kvs"
proof -
  from assms obtain k c s' where "(k, c) \<in> set kvs" "s = k # s'"
    unfolding entries_children_iff by blast
  then show ?thesis by force
qed

lemma distinct_entries:
  "wf_node node \<Longrightarrow> distinct (map fst (entries node))"
  "wf_children kvs \<Longrightarrow> distinct (map fst (entries_children kvs))"
proof (induction node and kvs rule: wf_node_wf_children.induct)
  case (1 kvs terminal freq)
  then show ?case using entries_children_keys [of "[]" _ kvs] by auto
next
  case 2
  then show ?case by simp
next
  case (3 k child kvs)
  have "distinct (map ((#) k) (map fst (entries child)))"
    using 3 by (auto simp: distinct_map inj_on_def)
  moreover have "set (map ((#) k) (map fst (entries child))) \<inter> set (map fst (entries_children kvs)) = {}"
  proof -
    have False if "(s, f) \<in> set (entries child)" "(k # s, g) \<in> set (entries_children kvs)" for s f g
      using entries_children_keys [OF that(2)] 3(3) by (simp add: find_child_None_iff)
    then show ?thesis by auto
  qed
  ultimately show ?case using 3 by (simp add: case_prod_unfold comp_def)
qed

lemma suggest_loop_append:
  "suggest_loop node (p @ s) =
     (case suggest_loop node p of None \<Rightarrow> None | Some n \<Rightarrow> suggest_loop n s)"
  by (induction p arbitrary: node) (auto split: option.splits)

lemma contains_loop_suggest_loop:
  "contains_loop node s \<longleftrightarrow> (\<exists>nd. suggest_loop node s = Some nd \<and> is_terminal nd)"
  by (induction s arbitrary: node) (auto split: option.splits)

lemma wf_suggest_loop: "wf_node node \<Longrightarrow> suggest_loop node p = Some n \<Longrightarrow> wf_node n"
proof (induction p arbitrary: node)
  case Nil
  then show ?case by simp
next
  case (Cons k p)
  obtain kvs terminal freq where node: "node = TrieNode kvs terminal freq"
    by (cases node)
  with Cons.prems obtain c where c: "find_child kvs k = Some c" "suggest_loop c p = Some n"
    by (auto split: option.splits)
  from Cons.prems node have wf: "wf_children kvs" by simp
  with c have "wf_node c" using find_child_Some_iff wf_children_member by blast
  with Cons.IH c show ?case by blast
qed

text \<open>The words below the node that a prefix leads to, in traversal order.\<close>

lemma suggest_body_entries:
  "suggest_body r p l =
     (case suggest_loop r p of
        None \<Rightarrow> []
      | Some n \<Rightarrow>
          (if l = 0 then map (\<lambda>e. p @ fst e) (entries n)
           else take l (map (\<lambda>e. p @ fst e) (entries n))))"
  using collect_suggestions_entries(1) [of l "[]"]
  by (auto simp: suggest_body_def split: option.splits)

lemma suggest_body_unlimited:
  assumes "wf_node r"
  shows "set (suggest_body r p 0) = {w. prefix p w \<and> contains_loop r w}"
    and "distinct (suggest_body r p 0)"
proof -
  show "set (suggest_body r p 0) = {w. prefix p w \<and> contains_loop r w}"
  proof (cases "suggest_loop r p")
    case None
    then show ?thesis
      by (auto simp: suggest_body_entries prefix_def contains_loop_suggest_loop suggest_loop_append)
  next
    case (Some n)
    then have "wf_node n" using assms wf_suggest_loop by blast
    then have "\<And>s. (\<exists>f. (s, f) \<in> set (entries n)) \<longleftrightarrow> contains_loop r (p @ s)"
      using Some by (simp add: entries_iff contains_loop_suggest_loop suggest_loop_append)
    then show ?thesis using Some
      by (auto simp: suggest_body_entries prefix_def image_iff) force+
  qed
  show "distinct (suggest_body r p 0)"
  proof (cases "suggest_loop r p")
    case None
    then show ?thesis by (simp add: suggest_body_entries)
  next
    case (Some n)
    then have "wf_node n" using assms wf_suggest_loop by blast
    then have "distinct (map fst (entries n))"
      by (rule distinct_entries)
    then have "distinct (map ((@) p) (map fst (entries n)))"
      by (auto simp: distinct_map inj_on_def)
    then show ?thesis using Some by (simp add: suggest_body_entries comp_def)
  qed
qed

lemma suggest_body_limited:
  "suggest_body r p l = (if l = 0 then suggest_body r p 0 else take l (suggest_body r p 0))"
  by (simp add: suggest_body_entries split: option.splits)

section \<open>Tries built by insertion\<close>

lemma wf_children_set_child:
  "wf_children kvs \<Longrightarrow> wf_node n \<Longrightarrow> wf_children (set_child c n kvs)"
proof (induction kvs)
  case Nil
  then show ?case by simp
next
  case (Cons a kvs)
  obtain k v where a: "a = (k, v)" by (cases a)
  have "find_child (set_child c n kvs) k = None" if "find_child kvs k = None"
    using that by (auto simp: find_child_set_child)
  with Cons show ?case by (auto simp: a)
qed

lemma wf_make_TrieNode: "wf_node make_TrieNode"
  by (simp add: make_TrieNode_def)

lemma wf_insert_loop: "wf_node node \<Longrightarrow> wf_node (insert_loop node w)"
proof (induction w arbitrary: node)
  case Nil
  then show ?case by (cases node) simp
next
  case (Cons c cs)
  obtain kvs terminal freq where node: "node = TrieNode kvs terminal freq"
    by (cases node)
  with Cons.prems have wf: "wf_children kvs" by simp
  show ?case
  proof (cases "find_child kvs c")
    case None
    then show ?thesis using wf Cons.IH [OF wf_make_TrieNode] by (simp add: node)
  next
    case (Some nxt)
    then have "wf_node nxt"
      using wf find_child_Some_iff wf_children_member by blast
    then have "wf_node (insert_loop nxt cs)" by (rule Cons.IH)
    then show ?thesis using Some wf by (simp add: node wf_children_set_child)
  qed
qed

lemma wf_foldl_insert_loop: "wf_node node \<Longrightarrow> wf_node (foldl insert_loop node ws)"
  by (induction ws arbitrary: node) (simp_all add: wf_insert_loop)

lemma contains_loop_built:
  "contains_loop (foldl insert_loop make_TrieNode ws) v \<longleftrightarrow> v \<in> set ws"
  by (simp add: contains_loop_foldl contains_loop_make)

lemma suggest_body_built:
  "set (suggest_body (foldl insert_loop make_TrieNode ws) p 0) = {w \<in> set ws. prefix p w}"
  "distinct (suggest_body (foldl insert_loop make_TrieNode ws) p 0)"
  using suggest_body_unlimited [OF wf_foldl_insert_loop [OF wf_make_TrieNode], of ws p]
  by (auto simp: contains_loop_built)

lemma suggest_returns:
  "suggest t p l = Some (r, u) \<Longrightarrow> r = suggest_body (root t) p l \<and> root u = root t"
  by (auto simp: suggest_def LockGuard_def LockGuard_dtor_def split: if_splits)

lemma suggest_body_prefix:
  assumes "w \<in> set (suggest_body r p l)"
  shows "prefix p w"
proof -
  from assms have "w \<in> set (suggest_body r p 0)"
    by (simp only: suggest_body_limited [of r p l] split: if_splits) (auto dest: in_set_takeD)
  then show ?thesis
    by (auto simp: suggest_body_entries split: option.splits)
qed

text \<open>
  Claim C2. Let the trie be built by inserting the words \<open>ws\<close> into a new trie. Then
  \<^verbatim>\<open>suggest(P, L)\<close> returns a sequence without repetitions of inserted words that have \<open>P\<close>
  as a prefix; it is empty when no inserted word has the prefix; for \<open>L = 0\<close> it holds
  every such word; for \<open>L > 0\<close> its length is the minimum of \<open>L\<close> and the number of such
  words.
\<close>

theorem suggest_prefix_enumeration:
  "\<exists>t r. inserts (Trie_ctor ts) ws = Some t \<and> suggest t P L = Some (r, t) \<and>
     distinct r \<and> set r \<subseteq> {w \<in> set ws. prefix P w} \<and>
     ((\<forall>w \<in> set ws. \<not> prefix P w) \<longrightarrow> r = []) \<and>
     (L = 0 \<longrightarrow> set r = {w \<in> set ws. prefix P w}) \<and>
     (L \<noteq> 0 \<longrightarrow> length r = min L (card {w \<in> set ws. prefix P w}))"
proof -
  let ?root = "foldl insert_loop make_TrieNode ws"
  let ?t = "\<lparr>root = ?root, thread_safe = ts, mtx = False\<rparr>"
  let ?all = "suggest_body ?root P 0"
  let ?r = "suggest_body ?root P L"
  have t: "inserts (Trie_ctor ts) ws = Some ?t"
    by (rule inserts_ctor)
  have s: "suggest ?t P L = Some (?r, ?t)"
    by (simp add: suggest_idle)
  have all: "set ?all = {w \<in> set ws. prefix P w}" "distinct ?all"
    by (rule suggest_body_built)+
  have r: "?r = (if L = 0 then ?all else take L ?all)"
    by (rule suggest_body_limited)
  have "distinct ?r"
    using all(2) by (simp add: r)
  moreover have "set ?r \<subseteq> {w \<in> set ws. prefix P w}"
    using all(1) set_take_subset [of L ?all] by (simp only: r split: if_splits) auto
  moreover have "L = 0 \<longrightarrow> set ?r = {w \<in> set ws. prefix P w}"
    using all(1) by (simp add: r)
  moreover have "L \<noteq> 0 \<longrightarrow> length ?r = min L (card {w \<in> set ws. prefix P w})"
    using distinct_card [OF all(2)] by (simp add: r all(1) min.commute)
  moreover have "(\<forall>w \<in> set ws. \<not> prefix P w) \<longrightarrow> ?r = []"
    using \<open>set ?r \<subseteq> {w \<in> set ws. prefix P w}\<close> by (cases ?r) auto
  ultimately show ?thesis using t s by blast
qed

theorem suggest_prefix_enumeration_witness:
  "\<exists>t r. inserts (Trie_ctor False) [''a'', ''aa'', ''aaa'', ''aaaa''] = Some t \<and>
     suggest t ''a'' 2 = Some (r, t) \<and> length r = 2 \<and> distinct r \<and>
     set r \<subseteq> {''a'', ''aa'', ''aaa'', ''aaaa''}"
proof -
  let ?ws = "[''a'', ''aa'', ''aaa'', ''aaaa'']"
  have m: "{w \<in> set ?ws. prefix ''a'' w} = {''a'', ''aa'', ''aaa'', ''aaaa''}"
    by auto
  have c: "card {w \<in> set ?ws. prefix ''a'' w} = 4"
    unfolding m by simp
  from suggest_prefix_enumeration [of False ?ws "''a''" 2]
  show ?thesis unfolding c m by auto
qed

text \<open>
  Claim C5, as the code has it. Two tries built from the same words, each inserted the
  same number of times, in any order, return from \<^verbatim>\<open>suggest(P, L)\<close> sequences of the same
  length; for \<open>L = 0\<close> the two
  sequences hold the same words, each once, so one is a permutation of the other; and two
  tries with the same node store, entries in the same iteration order, return the same
  sequence. Which words a positive limit keeps, and in which order the words come, follows
  the iteration order of each node's entries.
\<close>

theorem suggest_same_words:
  "mset ws1 = mset ws2 \<Longrightarrow>
     \<exists>t1 t2 r1 r2. inserts (Trie_ctor ts1) ws1 = Some t1 \<and> inserts (Trie_ctor ts2) ws2 = Some t2 \<and>
       suggest t1 P L = Some (r1, t1) \<and> suggest t2 P L = Some (r2, t2) \<and>
       length r1 = length r2 \<and> (L = 0 \<longrightarrow> mset r1 = mset r2) \<and>
       (root t1 = root t2 \<longrightarrow> r1 = r2)"
proof -
  assume "mset ws1 = mset ws2"
  then have ws: "set ws1 = set ws2" by (rule mset_eq_setD)
  let ?root1 = "foldl insert_loop make_TrieNode ws1"
  let ?root2 = "foldl insert_loop make_TrieNode ws2"
  let ?t1 = "\<lparr>root = ?root1, thread_safe = ts1, mtx = False\<rparr>"
  let ?t2 = "\<lparr>root = ?root2, thread_safe = ts2, mtx = False\<rparr>"
  let ?a1 = "suggest_body ?root1 P 0" and ?a2 = "suggest_body ?root2 P 0"
  have t: "inserts (Trie_ctor ts1) ws1 = Some ?t1" "inserts (Trie_ctor ts2) ws2 = Some ?t2"
    by (rule inserts_ctor)+
  have s: "suggest ?t1 P L = Some (suggest_body ?root1 P L, ?t1)"
    "suggest ?t2 P L = Some (suggest_body ?root2 P L, ?t2)"
    by (simp_all add: suggest_idle)
  have "set ?a1 = set ?a2"
    by (simp add: suggest_body_built ws)
  moreover have d: "distinct ?a1" "distinct ?a2"
    by (rule suggest_body_built)+
  ultimately have m: "mset ?a1 = mset ?a2"
    by (simp add: set_eq_iff_mset_eq_distinct)
  then have len: "length ?a1 = length ?a2"
    by (rule mset_eq_length)
  have "length (suggest_body ?root1 P L) = length (suggest_body ?root2 P L)"
    using len by (simp add: suggest_body_limited [of _ P L])
  moreover have "L = 0 \<longrightarrow> mset (suggest_body ?root1 P L) = mset (suggest_body ?root2 P L)"
    using m by simp
  moreover have "root ?t1 = root ?t2 \<longrightarrow> suggest_body ?root1 P L = suggest_body ?root2 P L"
    by simp
  ultimately show ?thesis using t s by blast
qed

theorem suggest_same_words_witness:
  "mset [''a'', ''b''] = mset [''b'', ''a''] \<and>
   (\<exists>t1 t2 r1 r2. inserts (Trie_ctor False) [''a'', ''b''] = Some t1 \<and>
      inserts (Trie_ctor False) [''b'', ''a''] = Some t2 \<and>
      suggest t1 [] 0 = Some (r1, t1) \<and> suggest t2 [] 0 = Some (r2, t2) \<and>
      length r1 = length r2 \<and> mset r1 = mset r2)"
proof -
  have m: "mset [''a'', ''b''] = mset [''b'', ''a'']"
    by (simp add: add.commute)
  from suggest_same_words [OF m, of False False "[]" 0] show ?thesis
    using m by blast
qed

theorem suggest_order_counterexample:
  "mset [''a'', ''b''] = mset [''b'', ''a''] \<and>
   map_option fst (suggest (the (inserts (Trie_ctor False) [''a'', ''b''])) [] 1) = Some [''b''] \<and>
   map_option fst (suggest (the (inserts (Trie_ctor False) [''b'', ''a''])) [] 1) = Some [''a''] \<and>
   map_option fst (suggest (the (inserts (Trie_ctor False) [''a'', ''b''])) [] 0) = Some [''b'', ''a''] \<and>
   map_option fst (suggest (the (inserts (Trie_ctor False) [''b'', ''a''])) [] 0) = Some [''a'', ''b'']"
  by (simp add: Trie_ctor_def insert_trie_idle suggest_idle suggest_body_def make_TrieNode_def
      add.commute)

text \<open>
  Claim C7. On a trie whose mutex is free, inserting the empty word returns, sets the
  terminal flag of the root, adds one to the root's frequency, leaves the root's children
  as they were, and \<^verbatim>\<open>contains("")\<close> is true afterwards. Whatever \<^verbatim>\<open>suggest\<close> returns for a
  prefix that is not empty does not hold the empty word.
\<close>

theorem empty_word_is_a_word:
  "\<not> mtx t \<Longrightarrow>
     (\<exists>t1. insert_trie t [] = Some t1 \<and> is_terminal (root t1) \<and>
        frequency (root t1) = frequency (root t) + 1 \<and>
        children (root t1) = children (root t) \<and>
        contains t1 [] = Some (True, t1)) \<and>
     (\<forall>u P L r v. P \<noteq> [] \<and> suggest u P L = Some (r, v) \<longrightarrow> [] \<notin> set r)"
proof -
  assume idle: "\<not> mtx t"
  have "[] \<notin> set r" if "P \<noteq> []" "suggest u P L = Some (r, v)" for u P L r v
  proof
    assume "[] \<in> set r"
    with suggest_returns [OF that(2)] have "prefix P []"
      using suggest_body_prefix by blast
    with that(1) show False by simp
  qed
  then have "\<forall>u P L r v. P \<noteq> [] \<and> suggest u P L = Some (r, v) \<longrightarrow> [] \<notin> set r"
    by blast
  moreover have "\<exists>t1. insert_trie t [] = Some t1 \<and> is_terminal (root t1) \<and>
        frequency (root t1) = frequency (root t) + 1 \<and>
        children (root t1) = children (root t) \<and>
        contains t1 [] = Some (True, t1)"
    using idle by (simp add: insert_trie_idle contains_idle)
  ultimately show ?thesis by (rule conjI [rotated])
qed

theorem empty_word_is_a_word_witness:
  "\<not> mtx (Trie_ctor False) \<and>
   (\<exists>t1. insert_trie (Trie_ctor False) [] = Some t1 \<and> is_terminal (root t1) \<and>
      frequency (root t1) = 1 \<and> contains t1 [] = Some (True, t1) \<and>
      (\<exists>v. suggest t1 ''a'' 0 = Some ([], v))) \<and>
   ''a'' \<noteq> [] \<and>
   map_option fst (suggest (the (inserts (Trie_ctor False) [[], ''a''])) ''a'' 0) = Some [''a'']"
proof -
  have s: "map_option fst (suggest (the (inserts (Trie_ctor False) [[], ''a''])) ''a'' 0) = Some [''a'']"
    by (simp add: Trie_ctor_def insert_trie_idle suggest_idle suggest_body_def make_TrieNode_def)
  have idle: "\<not> mtx (Trie_ctor False)"
    by (simp add: Trie_ctor_def)
  from empty_word_is_a_word [OF idle] obtain t1 where
    t1: "insert_trie (Trie_ctor False) [] = Some t1" "is_terminal (root t1)"
    "frequency (root t1) = frequency (root (Trie_ctor False)) + 1"
    "contains t1 [] = Some (True, t1)"
    by blast
  have "t1 = (Trie_ctor False)\<lparr>root := insert_loop (root (Trie_ctor False)) []\<rparr>"
    using t1(1) by (simp add: insert_trie_idle [OF idle])
  then have "suggest t1 ''a'' 0 = Some ([], t1)"
    by (simp add: Trie_ctor_def suggest_idle suggest_body_def make_TrieNode_def)
  with t1 idle s show ?thesis
    by (auto simp: Trie_ctor_def make_TrieNode_def)
qed

section \<open>Edit distance\<close>

lemma static_cast_int_signed: "static_cast_int n = signed_take_bit 31 (int n)"
proof -
  have "(word_of_nat n :: 32 word) = word_of_int (int n)" by simp
  then show ?thesis
    unfolding static_cast_int_def by (simp only: sint_sbintrunc') simp
qed

lemma static_cast_int_small: "n < 2 ^ 31 \<Longrightarrow> static_cast_int n = int n"
  unfolding static_cast_int_signed
  by (rule signed_take_bit_int_eq_self) simp_all

lemma static_cast_int_2_31: "static_cast_int (2 ^ 31) = - 2147483648"
  unfolding static_cast_int_def by simp

lemma cell_0_right: "cell a b i 0 = int i"
  by (cases i) simp_all

lemma cell_nonneg: "0 \<le> cell a b i j"
  by (induction a b i j rule: cell.induct) simp_all

lemma cell_le_max: "cell a b i j \<le> int (max i j)"
  by (induction a b i j rule: cell.induct) (auto simp: min_def)

lemma cell_sym: "cell a b i j = cell b a j i"
proof (induction a b i j rule: cell.induct)
  case (1 a b j)
  then show ?case by (simp add: cell_0_right)
next
  case (2 a b i)
  then show ?case by simp
next
  case (3 a b i j)
  have "(a ! i = b ! j) = (b ! j = a ! i)" by auto
  with 3 show ?case by (simp add: min.commute min.left_commute)
qed

lemma cell_diag: "cell a a i i = 0"
proof (induction i)
  case 0
  then show ?case by simp
next
  case (Suc i)
  have "0 \<le> cell a a i (Suc i)" "0 \<le> cell a a (Suc i) i"
    by (rule cell_nonneg)+
  with Suc show ?case by simp
qed

text \<open>
  The inner loop fills the current row: if \<^verbatim>\<open>prev\<close> is row \<open>i - 1\<close> and \<^verbatim>\<open>cur\<close> is row
  \<open>i\<close> below index \<open>j\<close>, the loop leaves row \<open>i\<close>.
\<close>

lemma inner_loop_row:
  assumes "length prev = Suc (length b)" "length cur = Suc (length b)"
    and "1 \<le> i" "1 \<le> j"
    and "\<forall>k \<le> length b. prev ! k = cell a b (i - 1) k"
    and "\<forall>k < j. cur ! k = cell a b i k"
  shows "length (inner_loop a b i j prev cur) = Suc (length b) \<and>
    (\<forall>k \<le> length b. inner_loop a b i j prev cur ! k = cell a b i k)"
  using assms
proof (induction a b i j prev cur rule: inner_loop.induct)
  case (1 a b i j prev cur)
  show ?case
  proof (cases "j \<le> length b")
    case False
    then have "inner_loop a b i j prev cur = cur"
      by (simp add: inner_loop.simps [of a b i j])
    then show ?thesis using 1(3,7) False by auto
  next
    case True
    define cost :: int where "cost = (if a ! (i - 1) = b ! (j - 1) then 0 else 1)"
    define v where "v = min (prev ! j + 1) (min (cur ! (j - 1) + 1) (prev ! (j - 1) + cost))"
    obtain i' j' where ij: "i = Suc i'" "j = Suc j'"
      using 1(4,5) by (metis One_nat_def Suc_le_D)
    have "prev ! j = cell a b i' j" "prev ! j' = cell a b i' j'"
      using 1(6) True ij by auto
    moreover have "cur ! j' = cell a b i j'"
      using 1(7) ij by simp
    ultimately have v: "v = cell a b i j"
      by (simp add: v_def cost_def ij)
    have step: "inner_loop a b i j prev cur = inner_loop a b i (j + 1) prev (cur[j := v])"
      using True by (simp add: inner_loop.simps [of a b i j] v_def cost_def Let_def)
    have jl: "j < length cur"
      using 1(3) True by simp
    have "\<forall>k < j + 1. cur[j := v] ! k = cell a b i k"
      using 1(7) jl v by (auto simp: nth_list_update less_Suc_eq)
    with 1(1) [OF True refl] 1(2-6) show ?thesis
      unfolding step v_def cost_def by simp
  qed
qed


text \<open>The outer loop, started with row \<open>i - 1\<close> in \<^verbatim>\<open>prev\<close>, ends with the last row.\<close>

lemma outer_loop_row:
  assumes "length prev = Suc (length b)" "length cur = Suc (length b)"
    and "1 \<le> i" "i \<le> Suc (length a)" "length a < 2 ^ 31"
    and "\<forall>k \<le> length b. prev ! k = cell a b (i - 1) k"
  shows "\<forall>k \<le> length b. outer_loop a b i prev cur ! k = cell a b (length a) k"
  using assms
proof (induction a b i prev cur rule: outer_loop.induct)
  case (1 a b i prev cur)
  show ?case
  proof (cases "i \<le> length a")
    case False
    with 1(4,5) have "i - 1 = length a" by simp
    moreover have "outer_loop a b i prev cur = prev"
      using False by (simp add: outer_loop.simps [of a b i])
    ultimately show ?thesis using 1(7) by simp
  next
    case True
    define cur1 where "cur1 = cur[0 := static_cast_int i]"
    define cur2 where "cur2 = inner_loop a b i 1 prev cur1"
    have step: "outer_loop a b i prev cur = outer_loop a b (i + 1) cur2 prev"
      using True by (simp add: outer_loop.simps [of a b i] cur1_def cur2_def Let_def)
    have "static_cast_int i = int i"
      using True 1(6) by (intro static_cast_int_small) simp
    then have "\<forall>k < 1. cur1 ! k = cell a b i k"
      using 1(3) by (simp add: cur1_def cell_0_right)
    moreover have "length cur1 = Suc (length b)"
      using 1(3) by (simp add: cur1_def)
    ultimately have row: "length cur2 = Suc (length b)" "\<forall>k \<le> length b. cur2 ! k = cell a b i k"
      using inner_loop_row [of prev b cur1 i 1 a] 1(2,4,7) by (simp_all add: cur2_def)
    have "\<forall>k \<le> length b. outer_loop a b (i + 1) cur2 prev ! k = cell a b (length a) k"
      using 1(1) [OF True cur1_def cur2_def] row 1(2,6) True
      by simp
    then show ?thesis by (simp only: step)
  qed
qed

lemma levenshtein_distance_cell:
  assumes "length a < 2 ^ 31" "length b < 2 ^ 31"
  shows "levenshtein_distance a b = cell a b (length a) (length b)"
proof (cases "length a = 0 \<or> length b = 0")
  case True
  then show ?thesis
    using assms by (auto simp: levenshtein_distance_def static_cast_int_small cell_0_right)
next
  case False
  define prev where "prev = map static_cast_int [0..<length b + 1]"
  define cur :: "int list" where "cur = replicate (length b + 1) 0"
  have d: "levenshtein_distance a b = outer_loop a b 1 prev cur ! length b"
    using False by (simp add: levenshtein_distance_def prev_def cur_def Let_def)
  have "prev ! k = cell a b (1 - 1) k" if "k \<le> length b" for k
  proof -
    have "prev ! k = static_cast_int k"
      using that unfolding prev_def by (simp add: nth_append less_Suc_eq_le del: upt_Suc)
    also have "\<dots> = int k"
      using that assms(2) by (intro static_cast_int_small) simp
    finally show ?thesis by simp
  qed
  then have "\<forall>k \<le> length b. outer_loop a b 1 prev cur ! k = cell a b (length a) k"
    using assms(1) by (intro outer_loop_row) (simp_all add: prev_def cur_def)
  then show ?thesis by (simp add: d)
qed

lemma levenshtein_distance_empty_left: "levenshtein_distance [] x = static_cast_int (length x)"
  by (simp add: levenshtein_distance_def)

lemma levenshtein_distance_empty_right: "levenshtein_distance x [] = static_cast_int (length x)"
  by (simp add: levenshtein_distance_def)

text \<open>
  Claim C4, as the code has it. For byte sequences of fewer than \<open>2 ^ 31 - 1\<close> bytes, where
  every length and every sum of the computation fits the \<^verbatim>\<open>int\<close> it is stored in:
  \<open>distance(x, x) = 0\<close>, \<open>distance(x, y) = distance(y, x)\<close>, the result is not negative
  and not above the longer length, and \<open>distance("", x) = length(x)\<close>.
\<close>

theorem levenshtein_distance_identities:
  "length x < 2 ^ 31 - 1 \<Longrightarrow> length y < 2 ^ 31 - 1 \<Longrightarrow>
     levenshtein_distance x x = 0 \<and>
     levenshtein_distance x y = levenshtein_distance y x \<and>
     0 \<le> levenshtein_distance x y \<and>
     levenshtein_distance x y \<le> int (max (length x) (length y)) \<and>
     levenshtein_distance [] x = int (length x)"
proof -
  assume "length x < 2 ^ 31 - 1" "length y < 2 ^ 31 - 1"
  then have x: "length x < 2 ^ 31" and y: "length y < 2 ^ 31" by simp_all
  have xy: "levenshtein_distance x y = cell x y (length x) (length y)"
    using x y by (rule levenshtein_distance_cell)
  have "levenshtein_distance x x = 0"
    using x by (simp add: levenshtein_distance_cell cell_diag)
  moreover have "levenshtein_distance x y = levenshtein_distance y x"
    using x y cell_sym [of x y] by (simp add: levenshtein_distance_cell)
  moreover have "0 \<le> levenshtein_distance x y"
    unfolding xy by (rule cell_nonneg)
  moreover have "levenshtein_distance x y \<le> int (max (length x) (length y))"
    unfolding xy by (rule cell_le_max)
  moreover have "levenshtein_distance [] x = int (length x)"
    using x by (simp add: levenshtein_distance_empty_left static_cast_int_small)
  ultimately show ?thesis by blast
qed

theorem levenshtein_distance_identities_witness:
  "length ''kitten'' < 2 ^ 31 - 1 \<and> length ''sitting'' < 2 ^ 31 - 1 \<and>
   levenshtein_distance ''kitten'' ''kitten'' = 0 \<and>
   levenshtein_distance ''kitten'' ''sitting'' = levenshtein_distance ''sitting'' ''kitten'' \<and>
   levenshtein_distance ''kitten'' ''sitting'' = 3 \<and>
   levenshtein_distance [] ''kitten'' = 6"
proof -
  have e: "levenshtein_distance ''kitten'' ''sitting'' = 3"
    by code_simp
  have l: "length ''kitten'' < 2 ^ 31 - 1" "length ''sitting'' < 2 ^ 31 - 1"
    by simp_all
  from levenshtein_distance_identities [OF l] l e show ?thesis by simp
qed

theorem levenshtein_distance_counterexample:
  "levenshtein_distance [] (replicate (2 ^ 31) (CHR ''a'')) = - 2147483648 \<and>
   levenshtein_distance (replicate (2 ^ 31) (CHR ''a'')) [] = - 2147483648 \<and>
   int (length (replicate (2 ^ 31) (CHR ''a''))) = 2147483648"
proof -
  have "length (replicate (2 ^ 31) (CHR ''a'')) = 2 ^ 31"
    by (rule length_replicate)
  then show ?thesis
    by (simp only: levenshtein_distance_empty_left levenshtein_distance_empty_right
        static_cast_int_2_31) simp
qed

section \<open>The nodes of a trie and their growth\<close>

lemma suggest_loop_make: "suggest_loop make_TrieNode p = (if p = [] then Some make_TrieNode else None)"
  by (cases p) (simp_all add: make_TrieNode_def)

lemma node_state_Nil: "node_state r [] = Some (is_terminal r, frequency r)"
  by (simp add: node_state_def)

lemma node_state_Cons:
  "node_state r (c # cs) =
     (case find_child (children r) c of None \<Rightarrow> None | Some n \<Rightarrow> node_state n cs)"
  by (simp add: node_state_def split: option.splits)

lemma node_state_make: "node_state make_TrieNode p = (if p = [] then Some (False, 0) else None)"
  by (simp add: node_state_def suggest_loop_make) (simp add: make_TrieNode_def)

text \<open>
  What an insertion does to the node at a path \<open>p\<close>: a node that was there stays, keeps a
  terminal flag that was set, and gains one on its frequency exactly when \<open>p\<close> is the word;
  a node that was not there appears exactly when \<open>p\<close> is a prefix of the word.
\<close>

lemma node_state_insert_loop:
  "node_state (insert_loop node w) p =
     (case node_state node p of
        Some (terminal, freq) \<Rightarrow> Some (terminal \<or> p = w, freq + (if p = w then 1 else 0))
      | None \<Rightarrow> if prefix p w then Some (p = w, if p = w then 1 else 0) else None)"
proof (induction w arbitrary: node p)
  case Nil
  show ?case
  proof (cases p)
    case Nil
    then show ?thesis by (simp add: node_state_Nil)
  next
    case (Cons d ds)
    then show ?thesis by (simp add: node_state_Cons split: option.splits)
  qed
next
  case (Cons c cs)
  show ?case
  proof (cases p)
    case Nil
    then show ?thesis by (simp add: node_state_Nil split: option.splits)
  next
    case p: (Cons d ds)
    show ?thesis
    proof (cases "find_child (children node) c")
      case None
      show ?thesis
      proof (cases "d = c")
        case True
        then show ?thesis
          unfolding p using None Cons.IH [of make_TrieNode ds]
          by (auto simp: node_state_Cons node_state_make split: option.splits)
      next
        case False
        then show ?thesis
          unfolding p using None by (simp add: node_state_Cons split: option.splits)
      qed
    next
      case (Some nxt)
      show ?thesis
      proof (cases "d = c")
        case True
        then show ?thesis
          unfolding p using Some Cons.IH [of nxt ds]
          by (auto simp: node_state_Cons find_child_set_child split: option.splits)
      next
        case False
        then show ?thesis
          unfolding p using Some
          by (simp add: node_state_Cons find_child_set_child split: option.splits)
      qed
    qed
  qed
qed

lemma node_state_built:
  "node_state (foldl insert_loop make_TrieNode ws) p =
     (if p = [] \<or> (\<exists>w \<in> set ws. prefix p w)
      then Some (p \<in> set ws, word_of_nat (count_list ws p)) else None)"
proof (induction ws rule: rev_induct)
  case Nil
  then show ?case by (simp add: node_state_make)
next
  case (snoc w ws)
  have absent: "count_list ws p = 0" if "\<not> (\<exists>v \<in> set ws. prefix p v)"
    using that by (auto simp: count_list_0_iff)
  show ?case
  proof (cases "p = [] \<or> (\<exists>v \<in> set ws. prefix p v)")
    case True
    then have "node_state (foldl insert_loop make_TrieNode ws) p =
        Some (p \<in> set ws, word_of_nat (count_list ws p))"
      by (simp only: snoc.IH if_True)
    then show ?thesis using True by (auto simp: node_state_insert_loop)
  next
    case False
    then have "node_state (foldl insert_loop make_TrieNode ws) p = None"
      by (simp only: snoc.IH if_False)
    moreover have "p \<notin> set ws" "count_list ws p = 0"
      using False absent by auto
    ultimately show ?thesis using False by (auto simp: node_state_insert_loop)
  qed
qed

lemma count_list_replicate: "count_list (replicate n x) x = n"
  by (induction n) simp_all

lemma word32_le_succ: "(x :: 32 word) \<noteq> - 1 \<Longrightarrow> x \<le> x + 1"
  by (meson inc_less_eq_triv_imp nle_le)

lemma root_state_built:
  "frequency (foldl insert_loop make_TrieNode ws) = word_of_nat (count_list ws [])"
  "is_terminal (foldl insert_loop make_TrieNode ws) = ([] \<in> set ws)"
  using node_state_built [of ws "[]"] by (simp_all add: node_state_Nil)

lemma call_trie_Insert_idle:
  "\<not> mtx t \<Longrightarrow> call_trie fp t (Insert w) = Some (Returned, t\<lparr>root := insert_loop (root t) w\<rparr>)"
  by (simp add: insert_trie_idle)

lemma call_trie_query_idle:
  "\<not> mtx t \<Longrightarrow> \<forall>w. c \<noteq> Insert w \<Longrightarrow> \<exists>r. call_trie fp t c = Some (r, t)"
  by (cases c) (simp_all add: contains_idle suggest_idle search_ranked_idle)

text \<open>
  Claim C8, as the code has it. Every call on a trie whose mutex is free returns, and for
  every path: a node that was there before the call is there after it; a terminal flag
  that was set stays set; the frequency of the node is unchanged unless the call inserts
  the word of that node, which adds one to it modulo \<open>2 ^ 32\<close>, so the frequency does not
  decrease unless it was \<open>2 ^ 32 - 1\<close>; a node that was not there appears only on the path
  of an inserted word, with frequency 0 and not terminal unless it is the node of the
  word itself. In a trie built by inserting the words \<open>ws\<close> into a new trie, every node
  holds the number of insertions of its word modulo \<open>2 ^ 32\<close>, is terminal exactly when
  its word was inserted, and has frequency 0 if it is not terminal.
\<close>

theorem node_store_growth:
  "\<not> mtx t \<Longrightarrow>
     (\<exists>r t'. call_trie fp t c = Some (r, t') \<and>
        (\<forall>p terminal freq. node_state (root t) p = Some (terminal, freq) \<longrightarrow>
           (\<exists>terminal' freq'. node_state (root t') p = Some (terminal', freq') \<and>
              (terminal \<longrightarrow> terminal') \<and>
              freq' = (if c = Insert p then freq + 1 else freq) \<and>
              (freq \<noteq> - 1 \<longrightarrow> freq \<le> freq'))) \<and>
        (\<forall>p. node_state (root t) p = None \<longrightarrow>
           node_state (root t') p =
             (if \<exists>w. c = Insert w \<and> prefix p w
              then Some (c = Insert p, if c = Insert p then 1 else 0) else None))) \<and>
     (\<exists>u. inserts (Trie_ctor ts) ws = Some u \<and>
        (\<forall>p terminal freq. node_state (root u) p = Some (terminal, freq) \<longrightarrow>
           freq = word_of_nat (count_list ws p) \<and> terminal = (p \<in> set ws) \<and>
           (freq \<noteq> 0 \<longrightarrow> terminal)))"
proof -
  assume idle: "\<not> mtx t"
  have calls: "\<exists>r t'. call_trie fp t c = Some (r, t') \<and>
        (\<forall>p terminal freq. node_state (root t) p = Some (terminal, freq) \<longrightarrow>
           (\<exists>terminal' freq'. node_state (root t') p = Some (terminal', freq') \<and>
              (terminal \<longrightarrow> terminal') \<and>
              freq' = (if c = Insert p then freq + 1 else freq) \<and>
              (freq \<noteq> - 1 \<longrightarrow> freq \<le> freq'))) \<and>
        (\<forall>p. node_state (root t) p = None \<longrightarrow>
           node_state (root t') p =
             (if \<exists>w. c = Insert w \<and> prefix p w
              then Some (c = Insert p, if c = Insert p then 1 else 0) else None))"
  proof (cases "\<exists>w. c = Insert w")
    case True
    then obtain w where c: "c = Insert w" by blast
    let ?t' = "t\<lparr>root := insert_loop (root t) w\<rparr>"
    have "call_trie fp t c = Some (Returned, ?t')"
      unfolding c using idle by (rule call_trie_Insert_idle)
    moreover have "\<exists>terminal' freq'. node_state (root ?t') p = Some (terminal', freq') \<and>
        (terminal \<longrightarrow> terminal') \<and> freq' = (if c = Insert p then freq + 1 else freq) \<and>
        (freq \<noteq> - 1 \<longrightarrow> freq \<le> freq')"
      if "node_state (root t) p = Some (terminal, freq)" for p terminal freq
      using that by (simp add: c node_state_insert_loop word32_le_succ)
    moreover have "node_state (root ?t') p =
        (if \<exists>w. c = Insert w \<and> prefix p w
         then Some (c = Insert p, if c = Insert p then 1 else 0) else None)"
      if "node_state (root t) p = None" for p
      using that by (simp add: c node_state_insert_loop)
    ultimately show ?thesis by blast
  next
    case False
    then obtain r where "call_trie fp t c = Some (r, t)"
      using call_trie_query_idle [OF idle, of c fp] by blast
    moreover have "\<exists>terminal' freq'. node_state (root t) p = Some (terminal', freq') \<and>
        (terminal \<longrightarrow> terminal') \<and> freq' = (if c = Insert p then freq + 1 else freq) \<and>
        (freq \<noteq> - 1 \<longrightarrow> freq \<le> freq')"
      if "node_state (root t) p = Some (terminal, freq)" for p terminal freq
      using that False by simp
    moreover have "node_state (root t) p =
        (if \<exists>w. c = Insert w \<and> prefix p w
         then Some (c = Insert p, if c = Insert p then 1 else 0) else None)"
      if "node_state (root t) p = None" for p
      using that False by simp
    ultimately show ?thesis by blast
  qed
  let ?u = "\<lparr>root = foldl insert_loop make_TrieNode ws, thread_safe = ts, mtx = False\<rparr>"
  have "inserts (Trie_ctor ts) ws = Some ?u"
    by (rule inserts_ctor)
  moreover have "freq = word_of_nat (count_list ws p) \<and> terminal = (p \<in> set ws) \<and>
      (freq \<noteq> 0 \<longrightarrow> terminal)"
    if "node_state (root ?u) p = Some (terminal, freq)" for p terminal freq
  proof -
    from that have "freq = word_of_nat (count_list ws p)" "terminal = (p \<in> set ws)"
      by (simp_all add: node_state_built split: if_splits)
    moreover have "count_list ws p = 0" if "p \<notin> set ws"
      using that by (simp add: count_list_0_iff)
    ultimately show ?thesis by auto
  qed
  ultimately have "\<exists>u. inserts (Trie_ctor ts) ws = Some u \<and>
        (\<forall>p terminal freq. node_state (root u) p = Some (terminal, freq) \<longrightarrow>
           freq = word_of_nat (count_list ws p) \<and> terminal = (p \<in> set ws) \<and>
           (freq \<noteq> 0 \<longrightarrow> terminal))"
    by blast
  with calls show ?thesis by (rule conjI)
qed

theorem node_store_growth_witness:
  "\<not> mtx (Trie_ctor False) \<and>
   node_state (root (Trie_ctor False)) [] = Some (False, 0) \<and>
   (\<exists>t'. call_trie exact (Trie_ctor False) (Insert []) = Some (Returned, t') \<and>
      node_state (root t') [] = Some (True, 1))"
proof -
  have idle: "\<not> mtx (Trie_ctor False)"
    by (simp add: Trie_ctor_def)
  have n: "node_state (root (Trie_ctor False)) [] = Some (False, 0)"
    by (simp add: Trie_ctor_def node_state_Nil make_TrieNode_def)
  have c: "call_trie exact (Trie_ctor False) (Insert []) =
      Some (Returned, (Trie_ctor False)\<lparr>root := insert_loop (root (Trie_ctor False)) []\<rparr>)"
    using idle by (rule call_trie_Insert_idle)
  from node_store_growth [OF idle, of exact "Insert []" False "[]"] obtain r t' where
    "call_trie exact (Trie_ctor False) (Insert []) = Some (r, t')"
    "\<forall>p terminal freq. node_state (root (Trie_ctor False)) p = Some (terminal, freq) \<longrightarrow>
       (\<exists>terminal' freq'. node_state (root t') p = Some (terminal', freq') \<and>
          (terminal \<longrightarrow> terminal') \<and>
          freq' = (if Insert [] = Insert p then freq + 1 else freq) \<and>
          (freq \<noteq> - 1 \<longrightarrow> freq \<le> freq'))"
    by blast
  with n c idle show ?thesis
    by (auto simp: node_state_Nil)
qed

lemma frequency_after_empty_inserts:
  assumes "t = the (inserts (Trie_ctor ts) (replicate n []))"
  shows "frequency (root t) = word_of_nat n"
    and "0 < n \<Longrightarrow> is_terminal (root t)"
    and "frequency (root (the (insert_trie t []))) = word_of_nat n + 1"
proof -
  have t: "t = \<lparr>root = foldl insert_loop make_TrieNode (replicate n []), thread_safe = ts, mtx = False\<rparr>"
    unfolding assms by (simp only: inserts_ctor option.sel)
  show f: "frequency (root t) = word_of_nat n"
    by (simp add: t root_state_built count_list_replicate)
  show "is_terminal (root t)" if "0 < n"
    using that by (simp add: t root_state_built)
  have "\<not> mtx t" by (simp add: t)
  then show "frequency (root (the (insert_trie t []))) = word_of_nat n + 1"
    using f by (simp add: insert_trie_idle)
qed

theorem frequency_wraps_counterexample:
  "frequency (root (the (inserts (Trie_ctor False) (replicate (2 ^ 32 - 1) [])))) = 4294967295 \<and>
   is_terminal (root (the (inserts (Trie_ctor False) (replicate (2 ^ 32 - 1) [])))) \<and>
   frequency
     (root (the (insert_trie (the (inserts (Trie_ctor False) (replicate (2 ^ 32 - 1) []))) []))) = 0"
proof -
  have w: "(word_of_nat (2 ^ 32 - 1) :: 32 word) = 4294967295"
    "(4294967295 :: 32 word) + 1 = 0"
    by simp_all
  have n: "(0 :: nat) < 2 ^ 32 - 1"
    by simp
  show ?thesis
    using frequency_after_empty_inserts(1) [OF refl, of False "2 ^ 32 - 1"]
      frequency_after_empty_inserts(2) [OF refl n, of False]
      frequency_after_empty_inserts(3) [OF refl, of False "2 ^ 32 - 1"]
    unfolding w by (intro conjI)
qed

section \<open>Sorting\<close>

lemma sort_cmp_iff:
  "sort_cmp a b \<longleftrightarrow> score a > score b \<or> (score a = score b \<and> word a < word b)"
  by (auto simp: sort_cmp_def)

lemma sort_cmp_asym: "sort_cmp a b \<Longrightarrow> \<not> sort_cmp b a"
  by (auto simp: sort_cmp_iff)

lemma sort_cmp_trans: "sort_cmp a b \<Longrightarrow> sort_cmp b c \<Longrightarrow> sort_cmp a c"
  by (auto simp: sort_cmp_iff)

lemma sort_cmp_total:
  "\<not> sort_cmp a b \<Longrightarrow> \<not> sort_cmp b a \<Longrightarrow> a = (b :: ('d::linorder) ScoredWord)"
  by (auto simp: sort_cmp_iff not_less intro: ScoredWord.equality)

lemma mset_sort_insert: "mset (sort_insert x ys) = add_mset x (mset ys)"
  by (induction ys) simp_all

lemma set_sort_insert: "set (sort_insert x ys) = insert x (set ys)"
  using mset_sort_insert [of x ys, THEN arg_cong, of set_mset] by simp

lemma sorted_sort_insert:
  "sorted_wrt (\<lambda>a b. \<not> sort_cmp b a) ys \<Longrightarrow> sorted_wrt (\<lambda>a b. \<not> sort_cmp b a) (sort_insert x ys)"
proof (induction ys)
  case Nil
  then show ?case by simp
next
  case (Cons y ys)
  show ?case
  proof (cases "sort_cmp x y")
    case True
    have "\<not> sort_cmp z x" if "z \<in> set ys" for z
      using that Cons.prems True sort_cmp_trans [of z x y] by auto
    with True Cons.prems show ?thesis
      by (auto dest: sort_cmp_asym)
  next
    case False
    with Cons show ?thesis by (auto simp: set_sort_insert)
  qed
qed

lemma mset_std_sort: "mset (std_sort xs) = mset xs"
  by (induction xs) (simp_all add: std_sort_def mset_sort_insert)

lemma sorted_std_sort: "sorted_wrt (\<lambda>a b. \<not> sort_cmp b a) (std_sort xs)"
  by (induction xs) (simp_all add: std_sort_def sorted_sort_insert)

lemma sorted_wrt_unique:
  assumes "\<And>a b. R a b \<Longrightarrow> R b a \<Longrightarrow> a = b"
  shows "sorted_wrt R xs \<Longrightarrow> sorted_wrt R ys \<Longrightarrow> mset xs = mset ys \<Longrightarrow> xs = ys"
proof (induction xs arbitrary: ys)
  case Nil
  then show ?case by simp
next
  case (Cons x xs)
  from Cons.prems(3) obtain y ys' where ys: "ys = y # ys'"
    by (cases ys) auto
  have "x = y"
  proof (rule ccontr)
    assume ne: "x \<noteq> y"
    have "x \<in> set ys" "y \<in> set (x # xs)"
      using Cons.prems(3) [THEN arg_cong, of set_mset] by (auto simp: ys)
    with ne have "x \<in> set ys'" "y \<in> set xs" by (auto simp: ys)
    with Cons.prems(1,2) have "R x y" "R y x" by (auto simp: ys)
    with assms ne show False by blast
  qed
  moreover from this Cons.prems have "sorted_wrt R xs" "sorted_wrt R ys'" "mset xs = mset ys'"
    by (auto simp: ys)
  then have "xs = ys'" by (rule Cons.IH)
  ultimately show ?case by (simp add: ys)
qed

text \<open>
  Any result that \<^verbatim>\<open>std::sort\<close> may produce with this comparator, a permutation in which
  no element is ordered before an earlier one, is the list that the model computes.
\<close>

lemma std_sort_unique:
  assumes "mset ys = mset xs" "sorted_wrt (\<lambda>a b. \<not> sort_cmp b a) ys"
  shows "ys = std_sort xs"
proof (rule sorted_wrt_unique [where R = "\<lambda>a b. \<not> sort_cmp b a"])
  show "a = b" if "\<not> sort_cmp b a" "\<not> sort_cmp a b" for a b
    using that by (rule sort_cmp_total [rotated])
qed (use assms in \<open>simp_all add: sorted_std_sort mset_std_sort\<close>)

lemma sorted_wrt_strict:
  "sorted_wrt (\<lambda>a b. \<not> sort_cmp b a) xs \<Longrightarrow> distinct xs \<Longrightarrow> sorted_wrt sort_cmp xs"
  by (induction xs) (auto dest: sort_cmp_total)

section \<open>Ranked search\<close>

lemma stored_frequency_node_state:
  "stored_frequency r w = (case node_state r w of None \<Rightarrow> 0 | Some (terminal, freq) \<Rightarrow> freq)"
  by (simp add: stored_frequency_def node_state_def split: option.splits)

lemma stored_frequency_built:
  "stored_frequency (foldl insert_loop make_TrieNode ws) w = word_of_nat (count_list ws w)"
proof (cases "w = [] \<or> (\<exists>v \<in> set ws. prefix w v)")
  case True
  then show ?thesis by (simp add: stored_frequency_node_state node_state_built)
next
  case False
  then have "w \<notin> set ws" by auto
  then have "count_list ws w = 0" by (simp add: count_list_0_iff)
  with False show ?thesis by (simp add: stored_frequency_node_state node_state_built)
qed

lemma entries_stored_frequency:
  "wf_node r \<Longrightarrow> e \<in> set (entries r) \<Longrightarrow> snd e = stored_frequency r (fst e)"
  using entries_iff [of r "fst e" "snd e"] by (auto simp: stored_frequency_def)

lemma entries_contains:
  "wf_node r \<Longrightarrow> fst ` set (entries r) = {w. contains_loop r w}"
  using entries_iff [of r] by (force simp: contains_loop_suggest_loop image_iff)

lemma score_word_spec_score:
  "score_word fp q w (stored_frequency r w) = spec_score fp r q w"
  by (simp add: score_word_def spec_score_def Let_def)

text \<open>
  The ranked list of a trie: every stored word once, ordered by the ranking rule of the
  specification; \<^verbatim>\<open>search_ranked\<close> returns its first \<open>limit\<close> words, or all of them.
\<close>

lemma search_ranked_body_ranked:
  assumes "wf_node r"
  shows "\<exists>ranked. search_ranked_body fp r q l =
        take (if l = 0 then length ranked else min l (length ranked)) ranked \<and>
      set ranked = {w. contains_loop r w} \<and> distinct ranked \<and>
      sorted_wrt (ranked_before fp r q) ranked"
proof -
  define mk where
    "mk = (\<lambda>e :: string \<times> 32 word. \<lparr>word = fst e, score = score_word fp q (fst e) (snd e)\<rparr>)"
  define scored where "scored = std_sort (map mk (entries r))"
  define ranked where "ranked = map word scored"
  have collected: "collect_scored fp r [] [] q = map mk (entries r)"
    by (simp add: collect_scored_entries mk_def)
  have words: "mset ranked = mset (map fst (entries r))"
  proof -
    have "mset ranked = image_mset word (mset (std_sort (map mk (entries r))))"
      unfolding ranked_def scored_def by (rule mset_map)
    also have "\<dots> = image_mset word (mset (map mk (entries r)))"
      by (simp only: mset_std_sort)
    also have "\<dots> = mset (map word (map mk (entries r)))"
      by (rule mset_map [symmetric])
    also have "map word (map mk (entries r)) = map fst (entries r)"
      by (simp add: mk_def)
    finally show ?thesis .
  qed
  have d: "distinct ranked"
    using distinct_entries(1) [OF assms] words by (metis mset_eq_imp_distinct_iff)
  have s: "set ranked = {w. contains_loop r w}"
    using words [THEN arg_cong, of set_mset] entries_contains [OF assms] by simp
  have sc: "score x = spec_score fp r q (word x)" if "x \<in> set scored" for x
  proof -
    from that have "x \<in> set (map mk (entries r))"
      using mset_std_sort [of "map mk (entries r)", THEN arg_cong, of set_mset]
      by (simp add: scored_def)
    then obtain e where e: "e \<in> set (entries r)" "x = mk e" by auto
    then show ?thesis
      using entries_stored_frequency [OF assms e(1)]
      by (simp add: mk_def score_word_spec_score)
  qed
  have "distinct scored"
    using d by (auto simp: ranked_def distinct_map)
  then have "sorted_wrt sort_cmp scored"
    using sorted_std_sort [of "map mk (entries r)"] by (simp add: scored_def sorted_wrt_strict)
  then have "sorted_wrt (\<lambda>x y. ranked_before fp r q (word x) (word y)) scored"
    by (rule sorted_wrt_mono_rel [rotated]) (simp add: sc sort_cmp_iff ranked_before_def)
  then have o: "sorted_wrt (ranked_before fp r q) ranked"
    by (simp add: ranked_def sorted_wrt_map)
  have "search_ranked_body fp r q l =
      take (if l = 0 then length ranked else min l (length ranked)) ranked"
    by (simp add: search_ranked_body_def collected scored_def ranked_def Let_def take_map)
  with s d o show ?thesis by blast
qed

text \<open>
  Claim C3. Let the trie be built by inserting the words \<open>ws\<close> into a new trie, and let
  \<open>fp\<close> be any arithmetic for the scores, on a linearly ordered type. There is a ranked
  list that holds every inserted word exactly once and in which every word is ranked
  before every later one (higher score first, equal scores in ascending byte order), the
  score of a word \<open>w\<close> being \<open>1 / (1 + edit_distance(q, w)) + length(w) * 0.02 + f * 0.05\<close>
  as \<open>fp\<close> computes it, with \<open>f\<close> the frequency the trie stores for \<open>w\<close>, which is the
  number of insertions of \<open>w\<close> modulo \<open>2 ^ 32\<close>; \<^verbatim>\<open>search_ranked(q, L)\<close> returns the first
  \<open>min(L, count)\<close> words of that list, and the whole list for \<open>L = 0\<close>. In exact
  arithmetic the score is that expression over the real numbers.
\<close>

theorem search_ranked_ranking:
  "\<exists>t ranked. inserts (Trie_ctor ts) ws = Some t \<and>
     search_ranked fp t q L =
       Some (take (if L = 0 then length ranked else min L (length ranked)) ranked, t) \<and>
     set ranked = set ws \<and> distinct ranked \<and>
     sorted_wrt (ranked_before fp (root t) q) ranked \<and>
     (\<forall>w \<in> set ws. stored_frequency (root t) w = word_of_nat (count_list ws w)) \<and>
     (\<forall>w. spec_score exact (root t) q w =
        1 / (1 + real_of_int (levenshtein_distance q w)) + real (length w) * 0.02 +
        real (unat (stored_frequency (root t) w)) * 0.05)"
proof -
  let ?root = "foldl insert_loop make_TrieNode ws"
  let ?t = "\<lparr>root = ?root, thread_safe = ts, mtx = False\<rparr>"
  have t: "inserts (Trie_ctor ts) ws = Some ?t"
    by (rule inserts_ctor)
  have "wf_node ?root"
    by (intro wf_foldl_insert_loop wf_make_TrieNode)
  from search_ranked_body_ranked [OF this, of fp q L] obtain ranked where
    r: "search_ranked_body fp ?root q L =
        take (if L = 0 then length ranked else min L (length ranked)) ranked"
    "set ranked = {w. contains_loop ?root w}" "distinct ranked"
    "sorted_wrt (ranked_before fp ?root q) ranked"
    by blast
  have "search_ranked fp ?t q L =
      Some (take (if L = 0 then length ranked else min L (length ranked)) ranked, ?t)"
    using r(1) by (simp add: search_ranked_idle)
  moreover have "set ranked = set ws"
    using r(2) by (simp add: contains_loop_built)
  moreover have "\<forall>w \<in> set ws. stored_frequency (root ?t) w = word_of_nat (count_list ws w)"
    by (simp add: stored_frequency_built)
  moreover have "\<forall>w. spec_score exact (root ?t) q w =
      1 / (1 + real_of_int (levenshtein_distance q w)) + real (length w) * 0.02 +
      real (unat (stored_frequency (root ?t) w)) * 0.05"
    by (simp add: spec_score_def exact_def Let_def)
  ultimately show ?thesis using t r(3,4) by (intro exI [of _ ?t] exI [of _ ranked]) simp
qed

theorem search_ranked_ranking_witness:
  "(\<exists>t ranked. inserts (Trie_ctor False) [''hello'', ''hallo'', ''hullo'', ''world''] = Some t \<and>
      search_ranked exact t ''helo'' 3 = Some (take (min 3 (length ranked)) ranked, t) \<and>
      set ranked = set [''hello'', ''hallo'', ''hullo'', ''world''] \<and> distinct ranked \<and>
      sorted_wrt (ranked_before exact (root t) ''helo'') ranked) \<and>
   map_option fst
     (search_ranked exact (the (inserts (Trie_ctor False) [''hello'', ''hallo'', ''hullo'', ''world'']))
        ''helo'' 3) = Some [''hello'', ''hallo'', ''hullo''] \<and>
   map_option fst (search_ranked exact (the (inserts (Trie_ctor False) [''ba'', ''ab''])) [] 0) =
     Some [''ab'', ''ba'']"
proof -
  let ?ws = "[''hello'', ''hallo'', ''hullo'', ''world'']"
  have a: "search_ranked_body exact (foldl insert_loop make_TrieNode ?ws) ''helo'' 3 =
      [''hello'', ''hallo'', ''hullo'']"
    by code_simp
  have b: "search_ranked_body exact (foldl insert_loop make_TrieNode [''ba'', ''ab'']) [] 0 =
      [''ab'', ''ba'']"
    by code_simp
  have "map_option fst (search_ranked exact (the (inserts (Trie_ctor False) ws)) q l) =
      Some (search_ranked_body exact (foldl insert_loop make_TrieNode ws) q l)" for ws q l
    by (simp only: inserts_ctor option.sel) (simp add: search_ranked_idle)
  then have "map_option fst (search_ranked exact (the (inserts (Trie_ctor False) ?ws)) ''helo'' 3) =
      Some [''hello'', ''hallo'', ''hullo'']"
    "map_option fst (search_ranked exact (the (inserts (Trie_ctor False) [''ba'', ''ab''])) [] 0) =
      Some [''ab'', ''ba'']"
    by (simp_all only: a b)
  moreover from search_ranked_ranking [of False ?ws exact "''helo''" 3]
  have "\<exists>t ranked. inserts (Trie_ctor False) ?ws = Some t \<and>
      search_ranked exact t ''helo'' 3 = Some (take (min 3 (length ranked)) ranked, t) \<and>
      set ranked = set ?ws \<and> distinct ranked \<and>
      sorted_wrt (ranked_before exact (root t) ''helo'') ranked"
    by (simp only: numeral_eq_iff num.simps if_False zero_neq_numeral [symmetric]) blast
  ultimately show ?thesis by (intro conjI)
qed

section \<open>Re-insertion\<close>

lemma structure_of_set_child:
  "find_child kvs c = Some nxt \<Longrightarrow> structure_of n = structure_of nxt \<Longrightarrow>
     structure_of_children (set_child c n kvs) = structure_of_children kvs"
  by (induction kvs) (auto split: if_splits)

lemma structure_of_insert_loop:
  "contains_loop node w \<Longrightarrow> structure_of (insert_loop node w) = structure_of node"
proof (induction w arbitrary: node)
  case Nil
  then show ?case by (cases node) simp
next
  case (Cons c cs)
  obtain kvs terminal freq where node: "node = TrieNode kvs terminal freq"
    by (cases node)
  with Cons.prems obtain nxt where nxt: "find_child kvs c = Some nxt" "contains_loop nxt cs"
    by (auto split: option.splits)
  from Cons.IH [OF nxt(2)] nxt(1) show ?case
    by (simp add: node structure_of_set_child)
qed

lemma filter_singleton:
  "distinct (map f xs) \<Longrightarrow> x \<in> set xs \<Longrightarrow> filter (\<lambda>y. f y = f x) xs = [x]"
proof (induction xs)
  case Nil
  then show ?case by simp
next
  case (Cons y ys)
  show ?case
  proof (cases "y = x")
    case True
    with Cons.prems have "filter (\<lambda>y. f y = f x) ys = []"
      by (auto simp: filter_empty_conv image_iff)
    with True show ?thesis by simp
  next
    case False
    with Cons.prems have "x \<in> set ys" "f y \<noteq> f x" by (auto simp: image_iff)
    with Cons show ?thesis by simp
  qed
qed

text \<open>The one scored entry that the scan of \<^verbatim>\<open>search_ranked\<close> makes for a stored word.\<close>

lemma collect_scored_word:
  assumes "wf_node r" "contains_loop r w"
  shows "filter (\<lambda>x. word x = w) (collect_scored fp r [] [] q) =
    [\<lparr>word = w, score = score_word fp q w (stored_frequency r w)\<rparr>]"
proof -
  define mk where
    "mk = (\<lambda>e :: string \<times> 32 word. \<lparr>word = fst e, score = score_word fp q (fst e) (snd e)\<rparr>)"
  let ?x = "\<lparr>word = w, score = score_word fp q w (stored_frequency r w)\<rparr>"
  have collected: "collect_scored fp r [] [] q = map mk (entries r)"
    by (simp add: collect_scored_entries mk_def)
  from assms(2) obtain nd where "suggest_loop r w = Some nd" "is_terminal nd"
    by (auto simp: contains_loop_suggest_loop)
  then have "(w, stored_frequency r w) \<in> set (entries r)"
    by (simp add: entries_iff [OF assms(1)] stored_frequency_def)
  then have "mk (w, stored_frequency r w) \<in> set (map mk (entries r))"
    by simp
  then have "?x \<in> set (map mk (entries r))"
    by (simp add: mk_def)
  moreover have "distinct (map word (map mk (entries r)))"
    using distinct_entries(1) [OF assms(1)] by (simp add: mk_def comp_def)
  ultimately have "filter (\<lambda>y. word y = word ?x) (map mk (entries r)) = [?x]"
    by (rule filter_singleton [rotated])
  then show ?thesis by (simp add: collected)
qed

text \<open>
  Re-insertion of a word that the trie holds once. The second insertion leaves the node
  structure as it was, makes the stored frequency of the word 2 where it was 1, and changes
  the stored frequency of no other word. The scan of \<^verbatim>\<open>search_ranked(W, L)\<close> scores the word
  once in either trie, with \<^verbatim>\<open>score_word(W, W, 1)\<close> after the first insertion and
  \<^verbatim>\<open>score_word(W, W, 2)\<close> after the second. How the two scores compare is decided by the
  rounding arithmetic of \<^verbatim>\<open>double\<close>, which is a parameter here: nothing is stated about it.
\<close>

lemma reinsertion_structure_and_frequency:
  "count_list ws W = 1 \<Longrightarrow>
     \<exists>t1 t2. inserts (Trie_ctor ts) ws = Some t1 \<and> insert_trie t1 W = Some t2 \<and>
       structure_of (root t2) = structure_of (root t1) \<and>
       stored_frequency (root t1) W = 1 \<and> stored_frequency (root t2) W = 2 \<and>
       (\<forall>v. v \<noteq> W \<longrightarrow> stored_frequency (root t2) v = stored_frequency (root t1) v) \<and>
       filter (\<lambda>x. word x = W) (collect_scored fp (root t1) [] [] W) =
         [\<lparr>word = W, score = score_word fp W W 1\<rparr>] \<and>
       filter (\<lambda>x. word x = W) (collect_scored fp (root t2) [] [] W) =
         [\<lparr>word = W, score = score_word fp W W 2\<rparr>]"
proof -
  assume once: "count_list ws W = 1"
  let ?r1 = "foldl insert_loop make_TrieNode ws"
  let ?r2 = "insert_loop ?r1 W"
  let ?t1 = "\<lparr>root = ?r1, thread_safe = ts, mtx = False\<rparr>"
  let ?t2 = "\<lparr>root = ?r2, thread_safe = ts, mtx = False\<rparr>"
  have r2: "stored_frequency ?r2 v = word_of_nat (count_list (ws @ [W]) v)" for v
    using stored_frequency_built [of "ws @ [W]" v] by simp
  have t1: "inserts (Trie_ctor ts) ws = Some ?t1"
    by (rule inserts_ctor)
  have t2: "insert_trie ?t1 W = Some ?t2"
    by (simp add: insert_trie_idle)
  have wf: "wf_node ?r1" "wf_node ?r2"
    by (intro wf_insert_loop wf_foldl_insert_loop wf_make_TrieNode)+
  have "W \<in> set ws"
    using once count_list_0_iff [of ws W] by auto
  then have c: "contains_loop ?r1 W" "contains_loop ?r2 W"
    by (simp_all add: contains_loop_built contains_loop_insert_loop)
  have st: "structure_of ?r2 = structure_of ?r1"
    using c(1) by (rule structure_of_insert_loop)
  have f1: "stored_frequency ?r1 W = 1"
    by (simp add: stored_frequency_built once)
  have f2: "stored_frequency ?r2 W = 2"
    by (simp add: r2 once)
  have other: "stored_frequency ?r2 v = stored_frequency ?r1 v" if "v \<noteq> W" for v
    using that by (simp add: r2 stored_frequency_built)
  have s1: "filter (\<lambda>x. word x = W) (collect_scored fp ?r1 [] [] W) =
      [\<lparr>word = W, score = score_word fp W W 1\<rparr>]"
    using collect_scored_word [OF wf(1) c(1), of fp W] by (simp only: f1)
  have s2: "filter (\<lambda>x. word x = W) (collect_scored fp ?r2 [] [] W) =
      [\<lparr>word = W, score = score_word fp W W 2\<rparr>]"
    using collect_scored_word [OF wf(2) c(2), of fp W] by (simp only: f2)
  show ?thesis
    using t1 t2 st f1 f2 other s1 s2
    by (intro exI [of _ ?t1] exI [of _ ?t2]) simp
qed

end
